theory Spec2Isabelle
  imports Complex_Main "HOL-Library.Word" "HOL-Library.Log_Nat"
begin

section \<open>The async operation queue (src/utils/async-queue.ts)\<close>

text \<open>
  JavaScript values that travel through promises. A thunk may fulfil or reject with
  any value (\<^verbatim>\<open>reject: (error: any) => void\<close>); \<open>Error msg\<close> stands for
  \<^verbatim>\<open>new Error(msg)\<close>.
\<close>

datatype jsval = Undefined | Num int | Str string | Error string

text \<open>The two ways a promise settles.\<close>

datatype settled = Fulfilled jsval | Rejected jsval

text \<open>
  What calling \<^verbatim>\<open>item.operation()\<close> does at the call itself: it throws synchronously
  (the \<^verbatim>\<open>catch\<close> of \<^verbatim>\<open>processQueue\<close> takes the value at once), or it returns a promise
  that the environment settles later.
\<close>

datatype thunk = ThrowsSync jsval | ReturnsPromise

text \<open>
  \<^verbatim>\<open>QueueItem\<close>: the operation, and the \<^verbatim>\<open>resolve\<close>/\<^verbatim>\<open>reject\<close> pair of the promise that
  \<^verbatim>\<open>enqueue\<close> returned, identified by the number of that promise.
\<close>

record item =
  ident :: nat
  operation :: thunk

text \<open>
  An activation of \<^verbatim>\<open>processQueue\<close> suspended at \<^verbatim>\<open>await item.operation()\<close>: the thunk
  is still running, or its promise has settled and the continuation has not run yet.
\<close>

datatype status = Running | Completed settled

text \<open>Observations, in the order they happen.\<close>

datatype obs =
    ThunkStarted nat
  | ThunkEnded nat settled
  | PromiseSettled nat settled

text \<open>
  The closure state of \<^verbatim>\<open>createAsyncOperationQueue\<close> (\<open>queue\<close>, \<open>isProcessing\<close>),
  together with the promises handed out so far, the suspended activations of
  \<^verbatim>\<open>processQueue\<close>, and the log of observations.
\<close>

record qstate =
  queue :: "item list"
  isProcessing :: bool
  promises :: "nat \<Rightarrow> settled option"
  awaiting :: "(item \<times> status) list"
  nextId :: nat
  trace :: "obs list"

definition init :: qstate where
  "init = \<lparr>queue = [], isProcessing = False, promises = (\<lambda>_. None),
           awaiting = [], nextId = 0, trace = []\<rparr>"

definition observe :: "obs \<Rightarrow> qstate \<Rightarrow> qstate" where
  "observe ob s = s\<lparr>trace := trace s @ [ob]\<rparr>"

text \<open>
  \<^verbatim>\<open>item.resolve(v)\<close> and \<^verbatim>\<open>item.reject(e)\<close>: a promise settles once; a later call on
  the same promise has no effect.
\<close>

definition settlePromise :: "nat \<Rightarrow> settled \<Rightarrow> qstate \<Rightarrow> qstate" where
  "settlePromise p out s =
     (if promises s p = None
      then observe (PromiseSettled p out) (s\<lparr>promises := (promises s)(p \<mapsto> out)\<rparr>)
      else s)"

text \<open>
  The body of \<^verbatim>\<open>processQueue\<close> from its \<^verbatim>\<open>while\<close> on, up to the next suspension:
  \<^verbatim>\<open>
    while (queue.length > 0) {
      const item = queue.shift()!;
      try { const result = await item.operation(); item.resolve(result); }
      catch (error) { item.reject(error); }
    }
    isProcessing = false;
  \<close>
\<close>

function whileLoop :: "qstate \<Rightarrow> qstate" where
  "whileLoop s =
     (case queue s of
        [] \<Rightarrow> s\<lparr>isProcessing := False\<rparr>
      | it # rest \<Rightarrow>
          (case operation it of
             ThrowsSync e \<Rightarrow>
               whileLoop
                 (settlePromise (ident it) (Rejected e)
                    (observe (ThunkEnded (ident it) (Rejected e))
                       (observe (ThunkStarted (ident it)) (s\<lparr>queue := rest\<rparr>))))
           | ReturnsPromise \<Rightarrow>
               observe (ThunkStarted (ident it))
                 (s\<lparr>queue := rest, awaiting := awaiting s @ [(it, Running)]\<rparr>)))"
  by pat_completeness auto
termination
  by (relation "measure (\<lambda>s. length (queue s))")
     (auto simp: settlePromise_def observe_def)

declare whileLoop.simps [simp del]

definition processQueue :: "qstate \<Rightarrow> qstate" where
  "processQueue s =
     (if isProcessing s \<or> queue s = [] then s
      else whileLoop (s\<lparr>isProcessing := True\<rparr>))"

text \<open>
  The loop that \<^verbatim>\<open>enqueue\<close> and \<^verbatim>\<open>clear\<close> both run, each with its own message:
  \<^verbatim>\<open>while (queue.length > 0) { const x = queue.shift()!; x.reject(new Error(msg)); }\<close>
\<close>

function rejectQueued :: "string \<Rightarrow> qstate \<Rightarrow> qstate" where
  "rejectQueued msg s =
     (case queue s of
        [] \<Rightarrow> s
      | it # rest \<Rightarrow>
          rejectQueued msg (settlePromise (ident it) (Rejected (Error msg)) (s\<lparr>queue := rest\<rparr>)))"
  by pat_completeness auto
termination
  by (relation "measure (\<lambda>(msg, s). length (queue s))")
     (auto simp: settlePromise_def observe_def)

declare rejectQueued.simps [simp del]

text \<open>
  \<^verbatim>\<open>enqueue(operation)\<close>: the executor of the new promise runs at once. The promise it
  returns is number \<open>nextId s\<close>.
\<close>

definition enqueue :: "thunk \<Rightarrow> qstate \<Rightarrow> qstate" where
  "enqueue op s =
     (let s1 = rejectQueued ''Operation cancelled by newer request'' s;
          s2 = s1\<lparr>queue := queue s1 @ [\<lparr>ident = nextId s, operation = op\<rparr>],
                  nextId := Suc (nextId s)\<rparr>
      in processQueue s2)"

definition clear :: "qstate \<Rightarrow> qstate" where
  "clear s = rejectQueued ''Queue cleared'' s"

definition queueLength :: "qstate \<Rightarrow> nat" where
  "queueLength s = length (queue s)"

text \<open>
  The promise returned by the thunk of the operation \<open>i\<close> in flight settles with \<open>r\<close>.
  Nothing of the queue runs yet: the continuation of \<^verbatim>\<open>processQueue\<close> is a later job.
\<close>

definition thunkSettles :: "nat \<Rightarrow> settled \<Rightarrow> qstate \<Rightarrow> qstate" where
  "thunkSettles i r s =
     (if \<exists>a \<in> set (awaiting s). ident (fst a) = i \<and> snd a = Running
      then observe (ThunkEnded i r)
             (s\<lparr>awaiting := map (\<lambda>a. if ident (fst a) = i \<and> snd a = Running
                                      then (fst a, Completed r) else a) (awaiting s)\<rparr>)
      else s)"

text \<open>
  The continuation of \<^verbatim>\<open>processQueue\<close> after its \<^verbatim>\<open>await\<close>: the item's promise is
  resolved or rejected with what the thunk's promise gave, and the loop goes on.
\<close>

definition resume :: "nat \<Rightarrow> qstate \<Rightarrow> qstate" where
  "resume i s =
     (case find (\<lambda>a. ident (fst a) = i \<and> snd a \<noteq> Running) (awaiting s) of
        None \<Rightarrow> s
      | Some a \<Rightarrow>
          (case snd a of
             Running \<Rightarrow> s
           | Completed r \<Rightarrow>
               whileLoop (settlePromise i r (s\<lparr>awaiting := remove1 a (awaiting s)\<rparr>))))"

text \<open>
  Everything that can happen to a queue under cooperative scheduling: a call of
  \<^verbatim>\<open>enqueue\<close> or \<^verbatim>\<open>clear\<close>, the settling of a running thunk's promise, and the
  continuation of a suspended \<^verbatim>\<open>processQueue\<close>. Each is one uninterrupted job.
\<close>

datatype event = Enqueue thunk | Clear | ThunkSettles nat settled | Resume nat

fun step :: "event \<Rightarrow> qstate \<Rightarrow> qstate" where
  "step (Enqueue op) s = enqueue op s"
| "step Clear s = clear s"
| "step (ThunkSettles i r) s = thunkSettles i r s"
| "step (Resume i) s = resume i s"

definition run :: "event list \<Rightarrow> qstate \<Rightarrow> qstate" where
  "run evs s = fold step evs s"

subsection \<open>Instrumentation and invariants\<close>

text \<open>
  The thunks that are executing after a log: a thunk enters when it is called and leaves
  when it has thrown or its promise has settled.
\<close>

fun track :: "obs \<Rightarrow> nat list \<Rightarrow> nat list" where
  "track (ThunkStarted i) xs = xs @ [i]"
| "track (ThunkEnded i r) xs = remove1 i xs"
| "track (PromiseSettled i r) xs = xs"

definition executing :: "obs list \<Rightarrow> nat list" where
  "executing tr = fold track tr []"

text \<open>At every instant of a log (each of its prefixes) at most one thunk is executing.\<close>

definition neverOverlaps :: "obs list \<Rightarrow> bool" where
  "neverOverlaps tr = (\<forall>n. length (executing (take n tr)) \<le> 1)"

text \<open>The states in which \<^verbatim>\<open>processQueue\<close> enters or re-enters its loop.\<close>

definition quiet :: "qstate \<Rightarrow> bool" where
  "quiet s \<longleftrightarrow>
     isProcessing s \<and> awaiting s = [] \<and> executing (trace s) = [] \<and> neverOverlaps (trace s)"

text \<open>
  The guard \<open>isProcessing\<close> covers every suspended activation, there is at most one, and
  the executing thunks are those of the activations that still wait for their thunk.
\<close>

definition flightInv :: "qstate \<Rightarrow> bool" where
  "flightInv s \<longleftrightarrow>
     length (awaiting s) \<le> 1 \<and>
     (awaiting s \<noteq> [] \<longrightarrow> isProcessing s) \<and>
     executing (trace s)
       = map (\<lambda>a. ident (fst a)) (filter (\<lambda>a. snd a = Running) (awaiting s)) \<and>
     neverOverlaps (trace s)"

text \<open>The messages of the two errors the queue itself creates.\<close>

definition cancelMsg :: string where
  "cancelMsg = ''Operation cancelled by newer request''"

definition clearMsg :: string where
  "clearMsg = ''Queue cleared''"

text \<open>The promises of the operations that are queued or in flight.\<close>

definition pendingIds :: "qstate \<Rightarrow> nat list" where
  "pendingIds s = map ident (queue s) @ map (\<lambda>a. ident (fst a)) (awaiting s)"

text \<open>
  Operations queued or in flight are distinct and their promises are pending; a thunk that
  has ended has handed its outcome to its own promise, or is about to; a promise rejected
  with anything but one of the queue's two errors was rejected with what its own thunk gave.
\<close>

definition promiseInv :: "qstate \<Rightarrow> bool" where
  "promiseInv s \<longleftrightarrow>
     distinct (pendingIds s) \<and>
     (\<forall>it \<in> set (queue s). promises s (ident it) = None \<and> ident it < nextId s) \<and>
     (\<forall>a \<in> set (awaiting s). promises s (ident (fst a)) = None \<and> ident (fst a) < nextId s) \<and>
     (\<forall>i. nextId s \<le> i \<longrightarrow> promises s i = None) \<and>
     (\<forall>i r. ThunkEnded i r \<in> set (trace s) \<longrightarrow>
        promises s i = Some r \<or> (\<exists>it. (it, Completed r) \<in> set (awaiting s) \<and> ident it = i)) \<and>
     (\<forall>it r. (it, Completed r) \<in> set (awaiting s) \<longrightarrow> ThunkEnded (ident it) r \<in> set (trace s)) \<and>
     (\<forall>i e. promises s i = Some (Rejected e) \<longrightarrow>
        e = Error cancelMsg \<or> e = Error clearMsg \<or> ThunkEnded i (Rejected e) \<in> set (trace s))"

definition queueInv :: "qstate \<Rightarrow> bool" where
  "queueInv s \<longleftrightarrow> flightInv s \<and> promiseInv s"

section \<open>JavaScript numbers\<close>

text \<open>
  A JavaScript \<^verbatim>\<open>number\<close> is a binary64 double. Integer index arithmetic is exact on it
  below \<open>2 ^ 53\<close> and is modelled with \<open>nat\<close> and \<open>int\<close>; a quotient or a product that need
  not be an integer is rounded to the nearest double, ties to even, which \<open>fl\<close> does on
  the rationals: \<open>binexp r\<close> is the exponent of the binade of \<open>r\<close>, and the significand keeps
  53 bits. (All quotients and products of 32-bit dimensions lie in the normal range, so
  neither overflow nor subnormal numbers are modelled.)
\<close>

definition binexp :: "rat \<Rightarrow> int" where
  "binexp r =
     (let (p, q) = quotient_of r; e = bitlen p - bitlen q
      in if 2 powi e \<le> r then e else e - 1)"

definition roundHalfEven :: "rat \<Rightarrow> int" where
  "roundHalfEven m =
     (let f = \<lfloor>m\<rfloor>; d = m - of_int f
      in if d < 1 / 2 then f else if 1 / 2 < d then f + 1 else if even f then f else f + 1)"

definition fl :: "rat \<Rightarrow> rat" where
  "fl r =
     (if r = 0 then 0
      else let u = 2 powi (binexp \<bar>r\<bar> - 52)
           in sgn r * of_int (roundHalfEven (\<bar>r\<bar> / u)) * u)"

text \<open>The relative error of one rounding is at most \<open>2 ^ - 53\<close>.\<close>

definition unitRoundoff :: rat where
  "unitRoundoff = 1 / 2 ^ 53"

text \<open>\<^verbatim>\<open>~~v\<close>: truncate towards zero, then wrap to a signed 32-bit integer.\<close>

definition toInt32 :: "rat \<Rightarrow> int" where
  "toInt32 v =
     (let n = (if 0 \<le> v then \<lfloor>v\<rfloor> else \<lceil>v\<rceil>)
      in (n + 2 ^ 31) mod 2 ^ 32 - 2 ^ 31)"

text \<open>
  \<^verbatim>\<open>array[i]\<close> on a typed array: \<^verbatim>\<open>undefined\<close> (here \<open>None\<close>) out of range, never an
  exception.
\<close>

definition lookup :: "'a list \<Rightarrow> int \<Rightarrow> 'a option" where
  "lookup xs i = (if 0 \<le> i \<and> nat i < length xs then Some (xs ! nat i) else None)"

section \<open>Rasters (the mask utilities)\<close>

type_synonym byte = "8 word"
type_synonym u32 = "32 word"

text \<open>
  \<^verbatim>\<open>ImageData\<close>: \<open>width\<close> and \<open>height\<close> are unsigned 32-bit integers, \<open>data\<close> is the
  \<^verbatim>\<open>Uint8ClampedArray\<close> of RGBA bytes, row by row, not premultiplied. An
  \<^verbatim>\<open>HTMLCanvasElement\<close> is its size, the bytes that read back from its bitmap, and whether
  \<^verbatim>\<open>getContext("2d")\<close> gives a context (it gives \<^verbatim>\<open>null\<close> on a canvas that already has a
  context of another kind). Images and canvases are same-origin throughout, so that the
  pixels of a canvas may be read: on a canvas on which a cross-origin image was drawn,
  \<^verbatim>\<open>getImageData\<close> raises \<^verbatim>\<open>SecurityError\<close>, and that state of a canvas is not part of this
  development.
\<close>

record imageData =
  width :: u32
  height :: u32
  data :: "byte list"

record canvas = imageData +
  context2d :: bool

text \<open>
  The parameter \<^verbatim>\<open>image: HTMLImageElement | HTMLCanvasElement\<close> of \<^verbatim>\<open>applyMaskToImage\<close>.
  A loaded image element is given by its \<^verbatim>\<open>width\<close>, its \<^verbatim>\<open>height\<close> and the pixels that
  \<^verbatim>\<open>drawImage(image, 0, 0)\<close> leaves on a canvas of that size.
\<close>

datatype element = HTMLImageElement imageData | HTMLCanvasElement canvas

text \<open>The exceptions that the calls of the canvas API raise in these functions.\<close>

datatype domException = IndexSizeError | InvalidStateError

text \<open>
  The bitmap of a canvas, as RGBA bytes: always \<open>width * height * 4\<close> of them (what is not
  drawn is transparent black).
\<close>

definition bitmap :: "canvas \<Rightarrow> imageData" where
  "bitmap c =
     (let n = unat (width c) * unat (height c) * 4
      in \<lparr>width = width c, height = height c, data = take n (data c @ replicate n 0)\<rparr>)"

text \<open>
  \<^verbatim>\<open>ctx.getImageData(0, 0, canvas.width, canvas.height)\<close>: it raises \<^verbatim>\<open>IndexSizeError\<close> when the
  width or the height of the rectangle is 0, and gives the bitmap otherwise.
\<close>

definition getImageData :: "canvas \<Rightarrow> domException + imageData" where
  "getImageData c =
     (if width c = 0 \<or> height c = 0 then Inl IndexSizeError else Inr (bitmap c))"

text \<open>
  \<^verbatim>\<open>ctx.putImageData(imageData, 0, 0)\<close> on a canvas of the size of \<open>imageData\<close>, as the
  bytes that read back from the canvas afterwards. The bitmap holds the colours
  premultiplied by alpha, so a pixel written with alpha 0 reads back as transparent black
  whatever its colour bytes were, a pixel written with alpha 255 reads back as written, and
  every pixel keeps its alpha. For an alpha in between, the colour byte that reads back is
  left to the user agent: \<open>requantize c a\<close> is what it gives for the colour byte \<open>c\<close>
  written with alpha \<open>a\<close>.
\<close>

definition putImageData :: "(byte \<Rightarrow> byte \<Rightarrow> byte) \<Rightarrow> byte list \<Rightarrow> byte list" where
  "putImageData requantize d =
     map (\<lambda>i. let a = d ! (4 * (i div 4) + 3)
              in if i mod 4 = 3 then a
                 else if a = 0 then 0
                 else if a = 255 then d ! i
                 else requantize (d ! i) a)
       [0..<length d]"

text \<open>
  \<^verbatim>\<open>drawImage(src, sx, sy, sw, sh, 0, 0, sw, sh)\<close> onto a fresh canvas of \<open>sw\<close> by \<open>sh\<close>
  pixels: the bytes of the rectangle, row by row, not scaled. (It raises
  \<^verbatim>\<open>InvalidStateError\<close> for a source canvas of width or height 0; where
  \<^verbatim>\<open>trimCanvasToContent\<close> calls it, \<^verbatim>\<open>getImageData\<close> has returned for that canvas, so it
  has neither.)
\<close>

definition drawImage :: "imageData \<Rightarrow> nat \<Rightarrow> nat \<Rightarrow> nat \<Rightarrow> nat \<Rightarrow> byte list" where
  "drawImage src sx sy sw sh =
     concat (map (\<lambda>j. take (4 * sw) (drop (((sy + j) * unat (width src) + sx) * 4) (data src)))
               [0..<sh])"

subsection \<open>trimCanvasToContent\<close>

text \<open>
  The object \<^verbatim>\<open>bound\<close> of \<^verbatim>\<open>trimCanvasToContent\<close>, each field a number or \<^verbatim>\<open>null\<close>
  (\<open>top'\<close> is the field \<^verbatim>\<open>top\<close>).
\<close>

record bound =
  top' :: "int option"
  left :: "int option"
  right :: "int option"
  bottom :: "int option"

text \<open>
  The body of the scan for a pixel (x, y) of nonzero alpha:
  \<^verbatim>\<open>
      if (bound.top === null) { bound.top = y; }
      if (bound.left === null) { bound.left = x; } else if (x < bound.left) { bound.left = x; }
      if (bound.right === null) { bound.right = x; } else if (bound.right < x) { bound.right = x; }
      if (bound.bottom === null) { bound.bottom = y; } else if (bound.bottom < y) { bound.bottom = y; }
  \<close>
\<close>

definition growBound :: "int \<Rightarrow> int \<Rightarrow> bound \<Rightarrow> bound" where
  "growBound x y b =
     \<lparr>top' = (case top' b of None \<Rightarrow> Some y | Some t \<Rightarrow> Some t),
      left = (case left b of None \<Rightarrow> Some x | Some l \<Rightarrow> if x < l then Some x else Some l),
      right = (case right b of None \<Rightarrow> Some x | Some r \<Rightarrow> if r < x then Some x else Some r),
      bottom = (case bottom b of None \<Rightarrow> Some y | Some m \<Rightarrow> if m < y then Some y else Some m)\<rparr>"

text \<open>
  The scan:
  \<^verbatim>\<open>
    for (let i = 0; i < l; i += 4) {
      if (pixels.data[i + 3] !== 0) {
        const x = (i / 4) % canvas.width;
        const y = ~~(i / 4 / canvas.width);
        ...
  \<close>
  \<open>i\<close> runs over the multiples of 4 below \<open>l\<close>, so \<open>i / 4\<close> is the integer \<open>i div 4\<close>;
  the second quotient is a double.
\<close>

definition findBounds :: "imageData \<Rightarrow> bound" where
  "findBounds pixels =
     fold (\<lambda>i b.
             if lookup (data pixels) (int i + 3) \<noteq> Some 0
             then growBound (int ((i div 4) mod unat (width pixels)))
                    (toInt32 (fl (of_nat (i div 4) / of_nat (unat (width pixels))))) b
             else b)
          (map (\<lambda>k. 4 * k) [0..<(length (data pixels) + 3) div 4])
          \<lparr>top' = None, left = None, right = None, bottom = None\<rparr>"

text \<open>
  \<^verbatim>\<open>trimCanvasToContent(canvas, padding)\<close>, with a padding that is a natural number. It
  returns a canvas (\<open>Inr\<close>) or raises what \<^verbatim>\<open>getImageData\<close> raises (\<open>Inl\<close>). The trimmed
  canvas is a fresh one, whose 2D context exists.
\<close>

definition trimCanvasToContent :: "canvas \<Rightarrow> nat \<Rightarrow> domException + canvas" where
  "trimCanvasToContent c padding =
     (if \<not> context2d c then Inr c
      else
        case getImageData c of
          Inl e \<Rightarrow> Inl e
        | Inr pixels \<Rightarrow>
            (let b = findBounds pixels
             in (case (top' b, left b, right b, bottom b) of
                   (Some t, Some l, Some r, Some m) \<Rightarrow>
                     let t' = max 0 (t - int padding);
                         l' = max 0 (l - int padding);
                         r' = min (int (unat (width c)) - 1) (r + int padding);
                         m' = min (int (unat (height c)) - 1) (m + int padding);
                         trimWidth = r' - l' + 1;
                         trimHeight = m' - t' + 1
                     in Inr \<lparr>width = word_of_int trimWidth, height = word_of_int trimHeight,
                            data = drawImage pixels (nat l') (nat t') (nat trimWidth) (nat trimHeight),
                            context2d = True\<rparr>
                 | _ \<Rightarrow> Inr c)))"

subsection \<open>applyMaskToImage\<close>

text \<open>
  The index into the mask's data for the destination pixel (x, y):
  \<^verbatim>\<open>
    const scaleX = mask.width / image.width;
    const scaleY = mask.height / image.height;
    ...
      const maskX = Math.floor(x * scaleX);
      const maskY = Math.floor(y * scaleY);
      const maskIdx = (maskY * mask.width + maskX) * 4;
  \<close>
  (\<open>img\<close> and \<open>msk\<close> are the parameters \<^verbatim>\<open>image\<close> and \<^verbatim>\<open>mask\<close>.)
\<close>

definition maskIdx :: "imageData \<Rightarrow> imageData \<Rightarrow> nat \<Rightarrow> nat \<Rightarrow> int" where
  "maskIdx img msk x y =
     (let scaleX = fl (of_nat (unat (width msk)) / of_nat (unat (width img)));
          scaleY = fl (of_nat (unat (height msk)) / of_nat (unat (height img)));
          maskX = \<lfloor>fl (of_nat x * scaleX)\<rfloor>;
          maskY = \<lfloor>fl (of_nat y * scaleY)\<rfloor>
      in (maskY * int (unat (width msk)) + maskX) * 4)"

text \<open>
  The body of the pixel loop:
  \<^verbatim>\<open>
      const imageIdx = (y * image.width + x) * 4;
      ...
      if (mask.data[maskIdx + 3] === 0) { imageData.data[imageIdx + 3] = 0; }
  \<close>
\<close>

definition maskPixel :: "imageData \<Rightarrow> imageData \<Rightarrow> nat \<Rightarrow> nat \<Rightarrow> byte list \<Rightarrow> byte list" where
  "maskPixel img msk y x d =
     (let imageIdx = (y * unat (width img) + x) * 4
      in if lookup (data msk) (maskIdx img msk x y + 3) = Some 0
         then d[imageIdx + 3 := 0]
         else d)"

text \<open>
  The nested iteration over \<open>y\<close> and \<open>x\<close>, on the bytes of \<^verbatim>\<open>imageData.data\<close>:
  \<^verbatim>\<open>
    for (let y = 0; y < image.height; y++) {
      for (let x = 0; x < image.width; x++) { ... }
    }
  \<close>
\<close>

definition maskPixels :: "imageData \<Rightarrow> imageData \<Rightarrow> byte list \<Rightarrow> byte list" where
  "maskPixels img msk d =
     fold (\<lambda>y. fold (maskPixel img msk y) [0..<unat (width img)]) [0..<unat (height img)] d"

text \<open>
  The width, the height and the pixels of \<^verbatim>\<open>image\<close>; those of a canvas are its bitmap.
\<close>

fun raster :: "element \<Rightarrow> imageData" where
  "raster (HTMLImageElement i) = i"
| "raster (HTMLCanvasElement c) = bitmap c"

text \<open>
  The fresh canvas of the image's size with the image drawn on it; its 2D context exists.
\<close>

definition canvasOf :: "imageData \<Rightarrow> canvas" where
  "canvasOf img =
     \<lparr>width = width img, height = height img, data = data img, context2d = True\<rparr>"

text \<open>
  \<^verbatim>\<open>ctx.drawImage(image, 0, 0)\<close> on that fresh canvas. It raises \<^verbatim>\<open>InvalidStateError\<close> when
  \<^verbatim>\<open>image\<close> is a canvas of width or height 0; an image element without pixels draws nothing.
\<close>

definition drawElement :: "element \<Rightarrow> domException + canvas" where
  "drawElement image' =
     (case image' of
        HTMLImageElement i \<Rightarrow> Inr (canvasOf i)
      | HTMLCanvasElement c \<Rightarrow>
          if width c = 0 \<or> height c = 0 then Inl InvalidStateError
          else Inr (canvasOf (bitmap c)))"

text \<open>
  \<^verbatim>\<open>applyMaskToImage(image, mask, { trimToContent, padding })\<close>: \<^verbatim>\<open>drawImage\<close>,
  \<^verbatim>\<open>getImageData\<close>, the iteration over the pixels, \<^verbatim>\<open>putImageData\<close>, and the optional
  trim. It returns a canvas (\<open>Inr\<close>) or raises what one of these calls raises (\<open>Inl\<close>).
  The first parameter is the user agent's \<open>requantize\<close> of \<open>putImageData\<close>, and \<open>image'\<close>
  is the parameter \<^verbatim>\<open>image\<close>.
\<close>

definition applyMaskToImage ::
  "(byte \<Rightarrow> byte \<Rightarrow> byte) \<Rightarrow> element \<Rightarrow> imageData \<Rightarrow> bool \<Rightarrow> nat \<Rightarrow> domException + canvas" where
  "applyMaskToImage requantize image' msk trimToContent padding =
     (case drawElement image' of
        Inl e \<Rightarrow> Inl e
      | Inr canvas \<Rightarrow>
          (case getImageData canvas of
             Inl e \<Rightarrow> Inl e
           | Inr imageData \<Rightarrow>
               let masked = maskPixels (raster image') msk (data imageData);
                   canvas = canvas\<lparr>data := putImageData requantize masked\<rparr>
               in if trimToContent then trimCanvasToContent canvas padding else Inr canvas))"

subsection \<open>getMaskBounds\<close>

text \<open>The object that \<^verbatim>\<open>getMaskBounds\<close> returns.\<close>

record maskBounds =
  mb_left :: int
  mb_top :: int
  mb_right :: int
  mb_bottom :: int
  mb_width :: int
  mb_height :: int

text \<open>
  The body of the nested iteration, on \<open>(minX, minY, maxX, maxY)\<close>:
  \<^verbatim>\<open>
      const idx = (y * mask.width + x) * 4;
      if (mask.data[idx + 3] > 0) {
        minX = Math.min(minX, x); minY = Math.min(minY, y);
        maxX = Math.max(maxX, x); maxY = Math.max(maxY, y);
      }
  \<close>
\<close>

definition boundsPixel ::
  "imageData \<Rightarrow> nat \<Rightarrow> nat \<Rightarrow> int \<times> int \<times> int \<times> int \<Rightarrow> int \<times> int \<times> int \<times> int" where
  "boundsPixel msk y x acc =
     (case acc of (minX, minY, maxX, maxY) \<Rightarrow>
        (case lookup (data msk) (int ((y * unat (width msk) + x) * 4) + 3) of
           Some a \<Rightarrow>
             if 0 < a then (min minX (int x), min minY (int y), max maxX (int x), max maxY (int y))
             else acc
         | None \<Rightarrow> acc))"

text \<open>
  \<^verbatim>\<open>getMaskBounds(mask)\<close>: \<open>minX = mask.width\<close>, \<open>minY = mask.height\<close>, \<open>maxX = maxY = -1\<close>
  before the iteration; \<^verbatim>\<open>null\<close> (here \<open>None\<close>) when \<open>maxX\<close> is still \<open>-1\<close> after it.
\<close>

definition getMaskBounds :: "imageData \<Rightarrow> maskBounds option" where
  "getMaskBounds msk =
     (case fold (\<lambda>y. fold (boundsPixel msk y) [0..<unat (width msk)])
             [0..<unat (height msk)]
             (int (unat (width msk)), int (unat (height msk)), - 1, - 1) of
        (minX, minY, maxX, maxY) \<Rightarrow>
          if maxX = - 1 then None
          else Some \<lparr>mb_left = minX, mb_top = minY, mb_right = maxX, mb_bottom = maxY,
                     mb_width = maxX - minX + 1, mb_height = maxY - minY + 1\<rparr>)"

subsection \<open>Content pixels, tight bounds, and the invariants of the scans\<close>

text \<open>
  The alpha byte of the pixel (x, y), and the content pixels: those inside the raster
  whose alpha byte is not 0.
\<close>

definition alphaAt :: "imageData \<Rightarrow> nat \<Rightarrow> nat \<Rightarrow> byte option" where
  "alphaAt r x y = lookup (data r) (int ((y * unat (width r) + x) * 4) + 3)"

definition content :: "imageData \<Rightarrow> nat \<Rightarrow> nat \<Rightarrow> bool" where
  "content r x y \<longleftrightarrow>
     x < unat (width r) \<and> y < unat (height r) \<and> (\<exists>a. alphaAt r x y = Some a \<and> a \<noteq> 0)"

text \<open>
  The inclusive tight bounding box of the content: each of its four sides is the
  coordinate of a content pixel, and every content pixel lies inside.
\<close>

definition tightBounds :: "imageData \<Rightarrow> int \<Rightarrow> int \<Rightarrow> int \<Rightarrow> int \<Rightarrow> bool" where
  "tightBounds r l t rt b \<longleftrightarrow>
     (\<exists>x y. content r x y \<and> int x = l) \<and>
     (\<exists>x y. content r x y \<and> int y = t) \<and>
     (\<exists>x y. content r x y \<and> int x = rt) \<and>
     (\<exists>x y. content r x y \<and> int y = b) \<and>
     (\<forall>x y. content r x y \<longrightarrow> l \<le> int x \<and> int x \<le> rt \<and> t \<le> int y \<and> int y \<le> b)"

text \<open>The scan of \<open>getMaskBounds\<close> after the pixels \<open>ps\<close> (pairs of row and column).\<close>

definition isContent :: "imageData \<Rightarrow> nat \<times> nat \<Rightarrow> bool" where
  "isContent msk p \<longleftrightarrow> (\<exists>a. alphaAt msk (snd p) (fst p) = Some a \<and> a \<noteq> 0)"

definition boundsInv ::
  "imageData \<Rightarrow> int \<Rightarrow> int \<Rightarrow> (nat \<times> nat) list \<Rightarrow> int \<times> int \<times> int \<times> int \<Rightarrow> bool" where
  "boundsInv msk W H ps acc \<longleftrightarrow>
     (case acc of (minX, minY, maxX, maxY) \<Rightarrow>
        if \<forall>p \<in> set ps. \<not> isContent msk p
        then acc = (W, H, - 1, - 1)
        else (\<exists>p \<in> set ps. isContent msk p \<and> minX = int (snd p)) \<and>
             (\<exists>p \<in> set ps. isContent msk p \<and> minY = int (fst p)) \<and>
             (\<exists>p \<in> set ps. isContent msk p \<and> maxX = int (snd p)) \<and>
             (\<exists>p \<in> set ps. isContent msk p \<and> maxY = int (fst p)) \<and>
             (\<forall>p \<in> set ps. isContent msk p \<longrightarrow>
                minX \<le> int (snd p) \<and> int (snd p) \<le> maxX \<and>
                minY \<le> int (fst p) \<and> int (fst p) \<le> maxY))"

text \<open>The scan of \<open>findBounds\<close> after the content pixels of indices \<open>ks\<close>.\<close>

definition emptyBound :: bound where
  "emptyBound = \<lparr>top' = None, left = None, right = None, bottom = None\<rparr>"

definition opaqueIndex :: "imageData \<Rightarrow> nat \<Rightarrow> bool" where
  "opaqueIndex pixels k \<longleftrightarrow> lookup (data pixels) (int (4 * k) + 3) \<noteq> Some 0"

definition scanInv :: "nat \<Rightarrow> nat list \<Rightarrow> bound \<Rightarrow> bool" where
  "scanInv w ks b \<longleftrightarrow>
     (if ks = [] then b = emptyBound
      else \<exists>t l r m.
             b = \<lparr>top' = Some t, left = Some l, right = Some r, bottom = Some m\<rparr> \<and>
             (\<exists>k \<in> set ks. t = int (k div w)) \<and>
             (\<exists>k \<in> set ks. l = int (k mod w)) \<and>
             (\<exists>k \<in> set ks. r = int (k mod w)) \<and>
             (\<exists>k \<in> set ks. m = int (k div w)) \<and>
             (\<forall>k \<in> set ks. l \<le> int (k mod w) \<and> int (k mod w) \<le> r \<and>
                             t \<le> int (k div w) \<and> int (k div w) \<le> m))"

subsection \<open>Example rasters\<close>

text \<open>Transparent black bytes.\<close>

definition blank :: "nat \<Rightarrow> byte list" where
  "blank n = replicate n 0"

text \<open>A canvas of 100x100 pixels, opaque at (10, 10) and (20, 20) only.\<close>

definition twoDots :: canvas where
  "twoDots = \<lparr>width = 100, height = 100,
              data = (blank 40000)[4043 := 255, 8083 := 255], context2d = True\<rparr>"



text \<open>Masks of 10x10 pixels: opaque at (5, 5) only, and all transparent.\<close>

definition oneDot :: imageData where
  "oneDot = \<lparr>width = 10, height = 10, data = (blank 400)[223 := 255]\<rparr>"

definition transparent100 :: imageData where
  "transparent100 = \<lparr>width = 10, height = 10, data = blank 400\<rparr>"

text \<open>
  An image of 98x1 opaque pixels, and a mask of 2x1 pixels, the first opaque and the
  second transparent.
\<close>

definition img98 :: imageData where
  "img98 = \<lparr>width = 98, height = 1, data = concat (map (\<lambda>k. [10, 20, 30, 255]) [0..<98])\<rparr>"

definition mask2 :: imageData where
  "mask2 = \<lparr>width = 2, height = 1, data = [0, 0, 0, 255, 0, 0, 0, 0]\<rparr>"

section \<open>Properties of the queue\<close>

lemma queue_observe [simp]: "queue (observe ob s) = queue s"
  by (simp add: observe_def)

lemma queue_settlePromise [simp]: "queue (settlePromise p out s) = queue s"
  by (simp add: settlePromise_def)

lemma whileLoop_queue_le: "length (queue (whileLoop s)) \<le> length (queue s)"
proof (induction s rule: whileLoop.induct)
  case (1 s)
  show ?case
  proof (cases "queue s")
    case Nil
    then show ?thesis by (simp add: whileLoop.simps [of s])
  next
    case (Cons it rest)
    show ?thesis
    proof (cases "operation it")
      case (ThrowsSync e)
      with Cons "1.IH" [OF Cons ThrowsSync] show ?thesis
        by (simp add: whileLoop.simps [of s])
    next
      case ReturnsPromise
      with Cons show ?thesis by (simp add: whileLoop.simps [of s])
    qed
  qed
qed

lemma rejectQueued_queue [simp]: "queue (rejectQueued msg s) = []"
proof (induction msg s rule: rejectQueued.induct)
  case (1 msg s)
  then show ?case
    by (cases "queue s") (simp_all add: rejectQueued.simps [of msg s])
qed

lemma processQueue_queue_le: "length (queue (processQueue s)) \<le> length (queue s)"
  using whileLoop_queue_le [of "s\<lparr>isProcessing := True\<rparr>"]
  by (simp add: processQueue_def)

lemma enqueue_queue_le: "length (queue (enqueue op s)) \<le> 1"
proof -
  define s1 where "s1 = rejectQueued ''Operation cancelled by newer request'' s"
  define s2 where "s2 = s1\<lparr>queue := queue s1 @ [\<lparr>ident = nextId s, operation = op\<rparr>],
                          nextId := Suc (nextId s)\<rparr>"
  have "length (queue s2) = 1" by (simp add: s2_def s1_def)
  moreover have "enqueue op s = processQueue s2"
    by (simp add: enqueue_def s2_def s1_def Let_def)
  ultimately show ?thesis using processQueue_queue_le [of s2] by simp
qed

lemma step_queue_le:
  assumes "length (queue s) \<le> 1"
  shows "length (queue (step ev s)) \<le> 1"
proof (cases ev)
  case (Enqueue op)
  then show ?thesis using enqueue_queue_le by simp
next
  case Clear
  then show ?thesis by (simp add: clear_def)
next
  case (ThunkSettles i r)
  then show ?thesis using assms by (simp add: thunkSettles_def observe_def)
next
  case (Resume i)
  show ?thesis
  proof (cases "find (\<lambda>a. ident (fst a) = i \<and> snd a \<noteq> Running) (awaiting s)")
    case None
    with Resume assms show ?thesis by (simp add: resume_def)
  next
    case (Some a)
    show ?thesis
    proof (cases "snd a")
      case Running
      with Some Resume assms show ?thesis by (simp add: resume_def)
    next
      case (Completed r)
      with Some Resume assms
        whileLoop_queue_le [of "settlePromise i r (s\<lparr>awaiting := remove1 a (awaiting s)\<rparr>)"]
      show ?thesis by (simp add: resume_def)
    qed
  qed
qed

lemma run_snoc: "run (evs @ [ev]) s = step ev (run evs s)"
  by (simp add: run_def)

lemma executing_snoc:
  "executing (tr @ [ob]) = track ob (executing tr)"
  by (simp add: executing_def)

lemma neverOverlaps_le: "neverOverlaps tr \<Longrightarrow> length (executing tr) \<le> 1"
  unfolding neverOverlaps_def using take_all [of tr "length tr"] by (metis order_refl)

lemma neverOverlaps_snoc:
  "neverOverlaps (tr @ [ob]) \<longleftrightarrow> neverOverlaps tr \<and> length (track ob (executing tr)) \<le> 1"
proof
  assume a: "neverOverlaps (tr @ [ob])"
  have "length (executing (take n tr)) \<le> 1" for n
  proof (cases "n \<le> length tr")
    case True
    then have "take n (tr @ [ob]) = take n tr" by simp
    with a show ?thesis unfolding neverOverlaps_def by metis
  next
    case False
    then have "take n tr = take (length tr) (tr @ [ob])" by simp
    with a show ?thesis unfolding neverOverlaps_def by metis
  qed
  moreover have "length (executing (tr @ [ob])) \<le> 1"
    using a by (rule neverOverlaps_le)
  ultimately show "neverOverlaps tr \<and> length (track ob (executing tr)) \<le> 1"
    by (simp add: neverOverlaps_def executing_snoc)
next
  assume a: "neverOverlaps tr \<and> length (track ob (executing tr)) \<le> 1"
  show "neverOverlaps (tr @ [ob])"
    unfolding neverOverlaps_def
  proof
    fix n
    show "length (executing (take n (tr @ [ob]))) \<le> 1"
    proof (cases "n \<le> length tr")
      case True
      then have "take n (tr @ [ob]) = take n tr" by simp
      with a show ?thesis by (simp add: neverOverlaps_def)
    next
      case False
      then have "take n (tr @ [ob]) = tr @ [ob]" by simp
      with a show ?thesis by (simp add: executing_snoc)
    qed
  qed
qed

lemma observe_fields [simp]:
  "isProcessing (observe ob s) = isProcessing s"
  "promises (observe ob s) = promises s"
  "awaiting (observe ob s) = awaiting s"
  "nextId (observe ob s) = nextId s"
  by (simp_all add: observe_def)

lemma observe_update [simp]:
  "trace (s\<lparr>queue := q\<rparr>) = trace s"
  by simp

lemma executing_observe [simp]:
  "executing (trace (observe ob s)) = track ob (executing (trace s))"
  by (simp add: observe_def executing_snoc)

lemma neverOverlaps_observe [simp]:
  "neverOverlaps (trace (observe ob s)) \<longleftrightarrow>
     neverOverlaps (trace s) \<and> length (track ob (executing (trace s))) \<le> 1"
  by (simp add: observe_def neverOverlaps_snoc)

lemma settlePromise_fields [simp]:
  "isProcessing (settlePromise p out s) = isProcessing s"
  "awaiting (settlePromise p out s) = awaiting s"
  "nextId (settlePromise p out s) = nextId s"
  by (simp_all add: settlePromise_def)

lemma executing_settlePromise [simp]:
  "executing (trace (settlePromise p out s)) = executing (trace s)"
  by (simp add: settlePromise_def)

lemma neverOverlaps_settlePromise [simp]:
  "neverOverlaps (trace (settlePromise p out s)) \<longleftrightarrow> neverOverlaps (trace s)"
  by (auto simp add: settlePromise_def dest: neverOverlaps_le)

lemma quiet_settlePromise: "quiet s \<Longrightarrow> quiet (settlePromise p out s)"
  by (simp add: quiet_def)

lemma flightInv_settlePromise: "flightInv s \<Longrightarrow> flightInv (settlePromise p out s)"
  by (simp add: flightInv_def)

lemma whileLoop_flightInv: "quiet s \<Longrightarrow> flightInv (whileLoop s)"
proof (induction s rule: whileLoop.induct)
  case (1 s)
  show ?case
  proof (cases "queue s")
    case Nil
    with "1.prems" show ?thesis
      by (simp add: whileLoop.simps [of s] flightInv_def quiet_def)
  next
    case (Cons it rest)
    show ?thesis
    proof (cases "operation it")
      case (ThrowsSync e)
      have "quiet (settlePromise (ident it) (Rejected e)
                    (observe (ThunkEnded (ident it) (Rejected e))
                       (observe (ThunkStarted (ident it)) (s\<lparr>queue := rest\<rparr>))))"
        using "1.prems"
        by (intro quiet_settlePromise) (simp add: quiet_def)
      from "1.IH" [OF Cons ThrowsSync this] Cons ThrowsSync show ?thesis
        by (simp add: whileLoop.simps [of s])
    next
      case ReturnsPromise
      with Cons "1.prems" show ?thesis
        by (simp add: whileLoop.simps [of s] flightInv_def quiet_def)
    qed
  qed
qed

lemma rejectQueued_flightInv: "flightInv s \<Longrightarrow> flightInv (rejectQueued msg s)"
proof (induction msg s rule: rejectQueued.induct)
  case (1 msg s)
  show ?case
  proof (cases "queue s")
    case Nil
    with "1.prems" show ?thesis by (simp add: rejectQueued.simps [of msg s])
  next
    case (Cons it rest)
    have "flightInv (settlePromise (ident it) (Rejected (Error msg)) (s\<lparr>queue := rest\<rparr>))"
      using "1.prems" by (intro flightInv_settlePromise) (simp add: flightInv_def)
    from "1.IH" [OF Cons this] Cons show ?thesis
      by (simp add: rejectQueued.simps [of msg s])
  qed
qed

lemma processQueue_flightInv: "flightInv s \<Longrightarrow> flightInv (processQueue s)"
proof (cases "isProcessing s \<or> queue s = []")
  case True
  assume "flightInv s"
  with True show ?thesis by (simp add: processQueue_def)
next
  case False
  assume inv: "flightInv s"
  with False have "awaiting s = []" by (auto simp: flightInv_def)
  with inv have "quiet (s\<lparr>isProcessing := True\<rparr>)"
    by (simp add: flightInv_def quiet_def)
  with False show ?thesis
    by (simp add: processQueue_def whileLoop_flightInv)
qed

lemma enqueue_flightInv:
  assumes "flightInv s"
  shows "flightInv (enqueue op s)"
proof -
  define s1 where "s1 = rejectQueued ''Operation cancelled by newer request'' s"
  have "flightInv s1"
    unfolding s1_def using assms by (rule rejectQueued_flightInv)
  then have "flightInv (s1\<lparr>queue := queue s1 @ [\<lparr>ident = nextId s, operation = op\<rparr>],
                            nextId := Suc (nextId s)\<rparr>)"
    by (simp add: flightInv_def)
  then show ?thesis
    unfolding enqueue_def Let_def s1_def [symmetric] by (rule processQueue_flightInv)
qed

lemma thunkSettles_flightInv:
  assumes "flightInv s"
  shows "flightInv (thunkSettles i r s)"
proof (cases "\<exists>a \<in> set (awaiting s). ident (fst a) = i \<and> snd a = Running")
  case False
  then have "thunkSettles i r s = s" unfolding thunkSettles_def by (rule if_not_P)
  with assms show ?thesis by simp
next
  case True
  then obtain a where a: "a \<in> set (awaiting s)" "ident (fst a) = i" "snd a = Running"
    by blast
  with assms have aw: "awaiting s = [a]"
    by (cases "awaiting s") (auto simp: flightInv_def)
  with a assms show ?thesis
    by (simp add: thunkSettles_def flightInv_def)
qed

lemma resume_flightInv:
  assumes "flightInv s"
  shows "flightInv (resume i s)"
proof (cases "find (\<lambda>a. ident (fst a) = i \<and> snd a \<noteq> Running) (awaiting s)")
  case None
  with assms show ?thesis by (simp add: resume_def)
next
  case (Some a)
  then have a: "a \<in> set (awaiting s)" "snd a \<noteq> Running"
    by (auto simp: find_Some_iff)
  with assms have aw: "awaiting s = [a]"
    by (cases "awaiting s") (auto simp: flightInv_def)
  from a obtain r where r: "snd a = Completed r" by (cases "snd a") auto
  have "quiet (settlePromise i r (s\<lparr>awaiting := remove1 a (awaiting s)\<rparr>))"
    using assms aw r by (intro quiet_settlePromise) (simp add: quiet_def flightInv_def)
  then show ?thesis
    using Some r by (simp add: resume_def whileLoop_flightInv)
qed

lemma step_flightInv: "flightInv s \<Longrightarrow> flightInv (step ev s)"
  by (cases ev)
     (simp_all add: enqueue_flightInv clear_def rejectQueued_flightInv
        thunkSettles_flightInv resume_flightInv)

lemma run_flightInv: "flightInv (run evs init)"
proof (induction evs rule: rev_induct)
  case Nil
  show ?case
    by (simp add: run_def init_def flightInv_def executing_def neverOverlaps_def)
next
  case (snoc ev evs)
  then show ?case by (simp add: run_snoc step_flightInv)
qed

lemma trace_observe [simp]: "trace (observe ob s) = trace s @ [ob]"
  by (simp add: observe_def)

lemma promises_settlePromise:
  "promises (settlePromise p out s) = (if promises s p = None then (promises s)(p \<mapsto> out) else promises s)"
  by (simp add: settlePromise_def)

lemma trace_settlePromise:
  "trace (settlePromise p out s) = (if promises s p = None then trace s @ [PromiseSettled p out] else trace s)"
  by (simp add: settlePromise_def)

lemma queued_not_ended:
  assumes "promiseInv s" "it \<in> set (queue s)"
  shows "ThunkEnded (ident it) r \<notin> set (trace s)"
proof
  assume e: "ThunkEnded (ident it) r \<in> set (trace s)"
  from assms have p: "promises s (ident it) = None"
    by (simp add: promiseInv_def)
  from assms have d: "ident it \<notin> (\<lambda>a. ident (fst a)) ` set (awaiting s)"
    by (auto simp: promiseInv_def pendingIds_def)
  from assms(1) e have "promises s (ident it) = Some r
      \<or> (\<exists>it'. (it', Completed r) \<in> set (awaiting s) \<and> ident it' = ident it)"
    unfolding promiseInv_def by blast
  with p d show False by force
qed

lemma sync_iteration_promiseInv:
  assumes "promiseInv s" "awaiting s = []" "queue s = it # rest"
  shows "promiseInv (settlePromise (ident it) (Rejected e)
                    (observe (ThunkEnded (ident it) (Rejected e))
                       (observe (ThunkStarted (ident it)) (s\<lparr>queue := rest\<rparr>))))"
  using assms queued_not_ended [of s it]
  unfolding promiseInv_def pendingIds_def
  by (auto simp: promises_settlePromise trace_settlePromise image_iff)

lemma whileLoop_promiseInv: "promiseInv s \<Longrightarrow> awaiting s = [] \<Longrightarrow> promiseInv (whileLoop s)"
proof (induction s rule: whileLoop.induct)
  case (1 s)
  show ?case
  proof (cases "queue s")
    case Nil
    with "1.prems" show ?thesis
      by (simp add: whileLoop.simps [of s] promiseInv_def pendingIds_def)
  next
    case (Cons it rest)
    show ?thesis
    proof (cases "operation it")
      case (ThrowsSync e)
      from "1.IH" [OF Cons ThrowsSync sync_iteration_promiseInv [OF "1.prems" Cons]] "1.prems"(2)
        Cons ThrowsSync show ?thesis
        by (simp add: whileLoop.simps [of s])
    next
      case ReturnsPromise
      with Cons "1.prems" show ?thesis
        unfolding promiseInv_def pendingIds_def
        by (auto simp add: whileLoop.simps [of s])
    qed
  qed
qed

lemma rejectQueued_promiseInv:
  "promiseInv s \<Longrightarrow> msg = cancelMsg \<or> msg = clearMsg \<Longrightarrow> promiseInv (rejectQueued msg s)"
proof (induction msg s rule: rejectQueued.induct)
  case (1 msg s)
  show ?case
  proof (cases "queue s")
    case Nil
    with "1.prems" show ?thesis by (simp add: rejectQueued.simps [of msg s])
  next
    case (Cons it rest)
    have "promiseInv (settlePromise (ident it) (Rejected (Error msg)) (s\<lparr>queue := rest\<rparr>))"
      using "1.prems" Cons queued_not_ended [of s it] unfolding promiseInv_def pendingIds_def
      by (auto simp: promises_settlePromise trace_settlePromise image_iff)
    from "1.IH" [OF Cons this "1.prems"(2)] Cons show ?thesis
      by (simp add: rejectQueued.simps [of msg s])
  qed
qed

lemma processQueue_promiseInv:
  assumes "promiseInv s" "flightInv s"
  shows "promiseInv (processQueue s)"
proof (cases "isProcessing s \<or> queue s = []")
  case True
  with assms show ?thesis by (simp add: processQueue_def)
next
  case False
  with assms have aw: "awaiting s = []" by (auto simp: flightInv_def)
  from assms have "promiseInv (s\<lparr>isProcessing := True\<rparr>)"
    by (simp add: promiseInv_def pendingIds_def)
  with aw False show ?thesis
    by (simp add: processQueue_def whileLoop_promiseInv)
qed

lemma awaiting_rejectQueued [simp]: "awaiting (rejectQueued msg s) = awaiting s"
proof (induction msg s rule: rejectQueued.induct)
  case (1 msg s)
  then show ?case by (cases "queue s") (simp_all add: rejectQueued.simps [of msg s])
qed

lemma isProcessing_rejectQueued [simp]: "isProcessing (rejectQueued msg s) = isProcessing s"
proof (induction msg s rule: rejectQueued.induct)
  case (1 msg s)
  then show ?case by (cases "queue s") (simp_all add: rejectQueued.simps [of msg s])
qed

lemma nextId_rejectQueued [simp]: "nextId (rejectQueued msg s) = nextId s"
proof (induction msg s rule: rejectQueued.induct)
  case (1 msg s)
  then show ?case by (cases "queue s") (simp_all add: rejectQueued.simps [of msg s])
qed

lemma rejectQueued_promises:
  "distinct (map ident (queue s)) \<Longrightarrow> \<forall>it \<in> set (queue s). promises s (ident it) = None \<Longrightarrow>
   promises (rejectQueued msg s) i =
     (if i \<in> ident ` set (queue s) then Some (Rejected (Error msg)) else promises s i)"
proof (induction msg s rule: rejectQueued.induct)
  case (1 msg s)
  show ?case
  proof (cases "queue s")
    case Nil
    then show ?thesis by (simp add: rejectQueued.simps [of msg s])
  next
    case (Cons it rest)
    let ?s' = "settlePromise (ident it) (Rejected (Error msg)) (s\<lparr>queue := rest\<rparr>)"
    have d: "distinct (map ident (queue ?s'))"
      using "1.prems" Cons by simp
    have n: "\<forall>it \<in> set (queue ?s'). promises ?s' (ident it) = None"
      using "1.prems" Cons by (auto simp: promises_settlePromise image_iff)
    from "1.IH" [OF Cons d n] "1.prems" Cons show ?thesis
      by (auto simp add: rejectQueued.simps [of msg s] promises_settlePromise)
  qed
qed

lemma enqueue_promiseInv:
  assumes "promiseInv s" "flightInv s"
  shows "promiseInv (enqueue op s)"
proof -
  define s1 where "s1 = rejectQueued cancelMsg s"
  define s2 where "s2 = s1\<lparr>queue := queue s1 @ [\<lparr>ident = nextId s, operation = op\<rparr>],
                          nextId := Suc (nextId s)\<rparr>"
  have p1: "promiseInv s1"
    unfolding s1_def using assms(1) by (rule rejectQueued_promiseInv) simp
  have f1: "flightInv s1"
    unfolding s1_def using assms(2) by (rule rejectQueued_flightInv)
  have n1: "nextId s1 = nextId s" by (simp add: s1_def)
  have q1: "queue s1 = []" by (simp add: s1_def)
  have "promiseInv s2"
    using p1 n1 q1 unfolding s2_def promiseInv_def pendingIds_def
    by (auto simp: image_iff intro: less_SucI)
  moreover have "flightInv s2"
    using f1 unfolding s2_def by (simp add: flightInv_def)
  ultimately have "promiseInv (processQueue s2)" by (rule processQueue_promiseInv)
  then show ?thesis
    by (simp add: enqueue_def Let_def s2_def s1_def cancelMsg_def)
qed

lemma thunkSettles_promiseInv:
  assumes "promiseInv s" "flightInv s"
  shows "promiseInv (thunkSettles i r s)"
proof (cases "\<exists>a \<in> set (awaiting s). ident (fst a) = i \<and> snd a = Running")
  case False
  then have "thunkSettles i r s = s" unfolding thunkSettles_def by (rule if_not_P)
  with assms show ?thesis by simp
next
  case True
  then obtain a where a: "a \<in> set (awaiting s)" "ident (fst a) = i" "snd a = Running"
    by blast
  with assms have aw: "awaiting s = [a]"
    by (cases "awaiting s") (auto simp: flightInv_def)
  obtain it where it: "a = (it, Running)" using a(3) by (cases a) auto
  have eq: "thunkSettles i r s = observe (ThunkEnded i r) (s\<lparr>awaiting := [(it, Completed r)]\<rparr>)"
    using a aw it by (simp add: thunkSettles_def)
  show ?thesis
    using assms(1) aw it a unfolding eq promiseInv_def pendingIds_def
    by auto
qed

lemma resume_promiseInv:
  assumes "promiseInv s" "flightInv s"
  shows "promiseInv (resume i s)"
proof (cases "find (\<lambda>a. ident (fst a) = i \<and> snd a \<noteq> Running) (awaiting s)")
  case None
  with assms show ?thesis by (simp add: resume_def)
next
  case (Some a)
  then have a: "a \<in> set (awaiting s)" "snd a \<noteq> Running" "ident (fst a) = i"
    by (auto simp: find_Some_iff)
  with assms have aw: "awaiting s = [a]"
    by (cases "awaiting s") (auto simp: flightInv_def)
  from a obtain r where r: "snd a = Completed r" by (cases "snd a") auto
  obtain it where it: "a = (it, Completed r)" using r by (cases a) auto
  let ?s' = "settlePromise i r (s\<lparr>awaiting := remove1 a (awaiting s)\<rparr>)"
  have u: "ra = r" if "ThunkEnded i ra \<in> set (trace s)" for ra
  proof -
    from assms(1) that have "promises s i = Some ra
        \<or> (\<exists>it'. (it', Completed ra) \<in> set (awaiting s) \<and> ident it' = i)"
      unfolding promiseInv_def by blast
    moreover have "promises s i = None"
      using assms(1) a by (auto simp: promiseInv_def)
    ultimately show ?thesis using aw it by auto
  qed
  have pn: "promises s i = None"
    using assms(1) a by (auto simp: promiseInv_def)
  have eq: "?s' = observe (PromiseSettled i r) (s\<lparr>awaiting := [], promises := (promises s)(i \<mapsto> r)\<rparr>)"
    using pn aw by (simp add: settlePromise_def)
  have ended: "ThunkEnded i r \<in> set (trace s)"
    using assms(1) aw it a(3) unfolding promiseInv_def by auto
  have qi: "ident it' \<noteq> i" if "it' \<in> set (queue s)" for it'
    using assms(1) aw it a(3) that unfolding promiseInv_def pendingIds_def
    by (auto simp: image_iff)
  have c1: "distinct (map ident (queue s))"
    using assms(1) unfolding promiseInv_def pendingIds_def by simp
  have c2: "\<forall>it' \<in> set (queue s). promises s (ident it') = None \<and> ident it' < nextId s"
    using assms(1) unfolding promiseInv_def by simp
  have c4: "\<forall>j. nextId s \<le> j \<longrightarrow> promises s j = None"
    using assms(1) unfolding promiseInv_def by simp
  have ilt: "i < nextId s"
    using assms(1) a unfolding promiseInv_def by auto
  have c5: "promises s j = Some ra" if "ThunkEnded j ra \<in> set (trace s)" "j \<noteq> i" for j ra
  proof -
    from assms(1) that(1) have "promises s j = Some ra
        \<or> (\<exists>it'. (it', Completed ra) \<in> set (awaiting s) \<and> ident it' = j)"
      unfolding promiseInv_def by blast
    with that(2) aw it a(3) show ?thesis by auto
  qed
  have c7: "e = Error cancelMsg \<or> e = Error clearMsg \<or> ThunkEnded j (Rejected e) \<in> set (trace s)"
    if "promises s j = Some (Rejected e)" for j e
    using assms(1) that unfolding promiseInv_def by blast
  define S where "S = observe (PromiseSettled i r) (s\<lparr>awaiting := [], promises := (promises s)(i \<mapsto> r)\<rparr>)"
  have S: "queue S = queue s" "awaiting S = []" "promises S = (promises s)(i \<mapsto> r)"
    "nextId S = nextId s" "trace S = trace s @ [PromiseSettled i r]"
    by (simp_all add: S_def)
  have g1: "distinct (pendingIds S)"
    using c1 by (simp add: pendingIds_def S)
  have g2: "\<forall>it' \<in> set (queue S). promises S (ident it') = None \<and> ident it' < nextId S"
    using c2 qi by (simp add: S)
  have g4: "\<forall>j. nextId S \<le> j \<longrightarrow> promises S j = None"
    using c4 ilt by (simp add: S)
  have g5: "\<forall>j ra. ThunkEnded j ra \<in> set (trace S) \<longrightarrow>
        promises S j = Some ra \<or> (\<exists>it'. (it', Completed ra) \<in> set (awaiting S) \<and> ident it' = j)"
  proof (intro allI impI)
    fix j ra
    assume "ThunkEnded j ra \<in> set (trace S)"
    then have e: "ThunkEnded j ra \<in> set (trace s)" by (simp add: S)
    show "promises S j = Some ra \<or> (\<exists>it'. (it', Completed ra) \<in> set (awaiting S) \<and> ident it' = j)"
    proof (cases "j = i")
      case True
      with e u [of ra] show ?thesis by (simp add: S)
    next
      case False
      with e c5 [of j ra] show ?thesis by (simp add: S)
    qed
  qed
  have g7: "\<forall>j e. promises S j = Some (Rejected e) \<longrightarrow>
        e = Error cancelMsg \<or> e = Error clearMsg \<or> ThunkEnded j (Rejected e) \<in> set (trace S)"
  proof (intro allI impI)
    fix j e
    assume p: "promises S j = Some (Rejected e)"
    show "e = Error cancelMsg \<or> e = Error clearMsg \<or> ThunkEnded j (Rejected e) \<in> set (trace S)"
    proof (cases "j = i")
      case True
      with p have "r = Rejected e" by (simp add: S)
      with ended True show ?thesis by (simp add: S)
    next
      case False
      with p have "promises s j = Some (Rejected e)" by (simp add: S)
      from c7 [OF this] show ?thesis by (auto simp add: S)
    qed
  qed
  have "promiseInv S"
    unfolding promiseInv_def using g1 g2 g4 g5 g7 by (simp add: S(2))
  then have "promiseInv ?s'" by (simp only: eq S_def)
  moreover have "awaiting ?s' = []" using aw by simp
  ultimately have "promiseInv (whileLoop ?s')" by (rule whileLoop_promiseInv)
  then show ?thesis
    using Some r by (simp add: resume_def)
qed

lemma clear_queueInv: "queueInv s \<Longrightarrow> queueInv (clear s)"
  unfolding queueInv_def clear_def clearMsg_def [symmetric]
  using rejectQueued_flightInv [of s clearMsg] rejectQueued_promiseInv [of s clearMsg]
  by blast

lemma step_queueInv:
  assumes "queueInv s"
  shows "queueInv (step ev s)"
proof (cases ev)
  case (Enqueue op)
  with assms show ?thesis
    by (simp add: queueInv_def enqueue_flightInv enqueue_promiseInv)
next
  case Clear
  with assms show ?thesis by (simp add: clear_queueInv)
next
  case (ThunkSettles i r)
  with assms show ?thesis
    by (simp add: queueInv_def thunkSettles_flightInv thunkSettles_promiseInv)
next
  case (Resume i)
  with assms show ?thesis
    by (simp add: queueInv_def resume_flightInv resume_promiseInv)
qed

lemma init_queueInv: "queueInv init"
proof -
  have "promiseInv init" by (simp add: init_def promiseInv_def pendingIds_def)
  moreover have "flightInv init"
    by (simp add: init_def flightInv_def executing_def neverOverlaps_def)
  ultimately show ?thesis by (simp add: queueInv_def)
qed

lemma run_queueInv: "queueInv (run evs init)"
proof (induction evs rule: rev_induct)
  case Nil
  show ?case using init_queueInv by (simp add: run_def)
next
  case (snoc ev evs)
  then have "queueInv (step ev (run evs init))" by (rule step_queueInv)
  then show ?case by (simp only: run_snoc)
qed

lemma whileLoop_keeps_settled:
  "promises s i = Some x \<Longrightarrow> promises (whileLoop s) i = Some x"
proof (induction s rule: whileLoop.induct)
  case (1 s)
  show ?case
  proof (cases "queue s")
    case Nil
    with "1.prems" show ?thesis by (simp add: whileLoop.simps [of s])
  next
    case (Cons it rest)
    show ?thesis
    proof (cases "operation it")
      case (ThrowsSync e)
      have "promises (settlePromise (ident it) (Rejected e)
                    (observe (ThunkEnded (ident it) (Rejected e))
                       (observe (ThunkStarted (ident it)) (s\<lparr>queue := rest\<rparr>)))) i = Some x"
        using "1.prems" by (auto simp: promises_settlePromise)
      from "1.IH" [OF Cons ThrowsSync this] Cons ThrowsSync show ?thesis
        by (simp add: whileLoop.simps [of s])
    next
      case ReturnsPromise
      with Cons "1.prems" show ?thesis by (simp add: whileLoop.simps [of s])
    qed
  qed
qed

lemma resume_delivers:
  assumes "queueInv s" "(it, Completed r) \<in> set (awaiting s)"
  shows "promises (resume (ident it) s) (ident it) = Some r"
proof -
  from assms have aw: "awaiting s = [(it, Completed r)]"
    by (cases "awaiting s") (auto simp: queueInv_def flightInv_def)
  have pn: "promises s (ident it) = None"
    using assms by (auto simp: queueInv_def promiseInv_def)
  have "resume (ident it) s =
      whileLoop (settlePromise (ident it) r (s\<lparr>awaiting := []\<rparr>))"
    using aw by (simp add: resume_def)
  moreover have "promises (settlePromise (ident it) r (s\<lparr>awaiting := []\<rparr>)) (ident it) = Some r"
    using pn by (simp add: promises_settlePromise)
  ultimately show ?thesis by (simp add: whileLoop_keeps_settled)
qed

lemma thunkSettles_completes:
  assumes "queueInv s" "(it, Running) \<in> set (awaiting s)"
  shows "(it, Completed r) \<in> set (awaiting (thunkSettles (ident it) r s))"
proof -
  from assms have aw: "awaiting s = [(it, Running)]"
    by (cases "awaiting s") (auto simp: queueInv_def flightInv_def)
  then show ?thesis by (simp add: thunkSettles_def)
qed

subsection \<open>The claims about the queue\<close>

text \<open>
  C1. Only the last of a burst of \<^verbatim>\<open>enqueue\<close> calls should run, every earlier one being
  cancelled first. On the four calls of \<^verbatim>\<open>test-async-queue.js\<close> the queue does otherwise:
  the first \<^verbatim>\<open>enqueue\<close> starts its thunk at once, so operation 0 is never pending, is not
  cancelled, and is fulfilled with its own result; operations 1 and 2 are cancelled, and
  operation 3 runs after operation 0 has ended.
\<close>

theorem C1_first_operation_is_not_cancelled:
  "trace (run [Enqueue ReturnsPromise, Enqueue ReturnsPromise, Enqueue ReturnsPromise,
               Enqueue ReturnsPromise,
               ThunkSettles 0 (Fulfilled (Str ''Result 1'')), Resume 0,
               ThunkSettles 3 (Fulfilled (Str ''Result 4'')), Resume 3] init)
   = [ThunkStarted 0,
      PromiseSettled 1 (Rejected (Error ''Operation cancelled by newer request'')),
      PromiseSettled 2 (Rejected (Error ''Operation cancelled by newer request'')),
      ThunkEnded 0 (Fulfilled (Str ''Result 1'')),
      PromiseSettled 0 (Fulfilled (Str ''Result 1'')),
      ThunkStarted 3,
      ThunkEnded 3 (Fulfilled (Str ''Result 4'')),
      PromiseSettled 3 (Fulfilled (Str ''Result 4''))]"
  by code_simp

text \<open>
  C2. At every instant at most one thunk passed to \<^verbatim>\<open>enqueue\<close> is executing: in the log of
  any sequence of \<^verbatim>\<open>enqueue\<close> calls, \<^verbatim>\<open>clear\<close> calls, thunk completions and continuations
  of \<^verbatim>\<open>processQueue\<close>, after every prefix at most one thunk has started and not yet ended.
\<close>

theorem C2_at_most_one_executing:
  "length (executing (take n (trace (run evs init)))) \<le> 1"
  using run_flightInv [of evs] by (simp add: flightInv_def neverOverlaps_def)

text \<open>
  C6. When the thunk of an operation rejects (or throws) with \<open>e\<close>, the promise that
  \<^verbatim>\<open>enqueue\<close> returned for that operation is rejected with \<open>e\<close> itself: it already is, or it
  is still pending and the continuation of \<^verbatim>\<open>processQueue\<close> rejects it with \<open>e\<close>. No other
  promise receives the failure: a promise rejected with a value other than the queue's own
  two errors was rejected with the value its own thunk gave.
\<close>

theorem C6_thunk_failure_reaches_its_caller:
  "(\<forall>i e. ThunkEnded i (Rejected e) \<in> set (trace (run evs init)) \<longrightarrow>
       promises (run evs init) i = Some (Rejected e) \<or>
       (promises (run evs init) i = None \<and>
        promises (resume i (run evs init)) i = Some (Rejected e))) \<and>
   (\<forall>i e. promises (run evs init) i = Some (Rejected e) \<longrightarrow>
       e = Error ''Operation cancelled by newer request'' \<or>
       e = Error ''Queue cleared'' \<or>
       ThunkEnded i (Rejected e) \<in> set (trace (run evs init)))"
proof (intro conjI allI impI)
  fix i e
  assume "ThunkEnded i (Rejected e) \<in> set (trace (run evs init))"
  with run_queueInv [of evs]
  have "promises (run evs init) i = Some (Rejected e) \<or>
        (\<exists>it. (it, Completed (Rejected e)) \<in> set (awaiting (run evs init)) \<and> ident it = i)"
    unfolding queueInv_def promiseInv_def by blast
  then show "promises (run evs init) i = Some (Rejected e) \<or>
       (promises (run evs init) i = None \<and>
        promises (resume i (run evs init)) i = Some (Rejected e))"
  proof
    assume "promises (run evs init) i = Some (Rejected e)"
    then show ?thesis by simp
  next
    assume "\<exists>it. (it, Completed (Rejected e)) \<in> set (awaiting (run evs init)) \<and> ident it = i"
    then obtain it where it: "(it, Completed (Rejected e)) \<in> set (awaiting (run evs init))" "ident it = i"
      by blast
    from resume_delivers [OF run_queueInv it(1)] it(2)
    have "promises (resume i (run evs init)) i = Some (Rejected e)" by simp
    moreover have "promises (run evs init) i = None"
      using run_queueInv [of evs] it by (auto simp: queueInv_def promiseInv_def)
    ultimately show ?thesis by simp
  qed
next
  fix i e
  assume "promises (run evs init) i = Some (Rejected e)"
  with run_queueInv [of evs]
  show "e = Error ''Operation cancelled by newer request'' \<or>
       e = Error ''Queue cleared'' \<or>
       ThunkEnded i (Rejected e) \<in> set (trace (run evs init))"
    unfolding queueInv_def promiseInv_def cancelMsg_def clearMsg_def by blast
qed

text \<open>An operation whose thunk rejects with \<open>Str ''boom''\<close>, before and after the continuation.\<close>

theorem C6_witness:
  "ThunkEnded 0 (Rejected (Str ''boom''))
     \<in> set (trace (run [Enqueue ReturnsPromise, ThunkSettles 0 (Rejected (Str ''boom'')), Resume 0] init)) \<and>
   promises (run [Enqueue ReturnsPromise, ThunkSettles 0 (Rejected (Str ''boom'')), Resume 0] init) 0
     = Some (Rejected (Str ''boom'')) \<and>
   ThunkEnded 0 (Rejected (Str ''boom''))
     \<in> set (trace (run [Enqueue ReturnsPromise, ThunkSettles 0 (Rejected (Str ''boom''))] init)) \<and>
   promises (run [Enqueue ReturnsPromise, ThunkSettles 0 (Rejected (Str ''boom''))] init) 0 = None \<and>
   promises (resume 0 (run [Enqueue ReturnsPromise, ThunkSettles 0 (Rejected (Str ''boom''))] init)) 0
     = Some (Rejected (Str ''boom''))"
proof -
  let ?e = "[Enqueue ReturnsPromise, ThunkSettles 0 (Rejected (Str ''boom'')), Resume 0]"
  let ?f = "[Enqueue ReturnsPromise, ThunkSettles 0 (Rejected (Str ''boom''))]"
  have t1: "trace (run ?e init)
        = [ThunkStarted 0, ThunkEnded 0 (Rejected (Str ''boom'')),
           PromiseSettled 0 (Rejected (Str ''boom''))]"
    by code_simp
  have t2: "trace (run ?f init) = [ThunkStarted 0, ThunkEnded 0 (Rejected (Str ''boom''))]"
    by code_simp
  have p2: "promises (run ?f init) 0 = None" by code_simp
  have p1: "promises (run ?e init) 0 = Some (Rejected (Str ''boom''))" by code_simp
  have m1: "ThunkEnded 0 (Rejected (Str ''boom'')) \<in> set (trace (run ?e init))"
    by (simp add: t1)
  have m2: "ThunkEnded 0 (Rejected (Str ''boom'')) \<in> set (trace (run ?f init))"
    by (simp add: t2)
  from C6_thunk_failure_reaches_its_caller [of ?f] m2
  have "promises (run ?f init) 0 = Some (Rejected (Str ''boom'')) \<or>
       (promises (run ?f init) 0 = None \<and>
        promises (resume 0 (run ?f init)) 0 = Some (Rejected (Str ''boom'')))"
    by blast
  with p2 have "promises (resume 0 (run ?f init)) 0 = Some (Rejected (Str ''boom''))" by simp
  with m1 m2 p1 p2 show ?thesis by blast
qed

text \<open>
  C7. \<^verbatim>\<open>clear()\<close> rejects the promise of every pending operation with
  \<^verbatim>\<open>Error('Queue cleared')\<close> and leaves \<open>queueLength = 0\<close>; the operation in flight is not
  touched: it stays in flight, its promise stays pending, and it settles with the outcome
  of its own thunk once that thunk has settled and \<^verbatim>\<open>processQueue\<close> has continued. This
  holds while the thunk is still running, and also when the thunk has settled already with
  \<open>r\<close> and only the continuation of \<^verbatim>\<open>processQueue\<close> is outstanding.
\<close>

theorem C7_clear_rejects_pending_only:
  "queueLength (clear (run evs init)) = 0 \<and>
   (\<forall>it \<in> set (queue (run evs init)).
      promises (clear (run evs init)) (ident it) = Some (Rejected (Error ''Queue cleared''))) \<and>
   awaiting (clear (run evs init)) = awaiting (run evs init) \<and>
   isProcessing (clear (run evs init)) = isProcessing (run evs init) \<and>
   (\<forall>it r. (it, Running) \<in> set (awaiting (run evs init)) \<longrightarrow>
      promises (clear (run evs init)) (ident it) = None \<and>
      promises (resume (ident it) (thunkSettles (ident it) r (clear (run evs init)))) (ident it)
        = Some r) \<and>
   (\<forall>it r. (it, Completed r) \<in> set (awaiting (run evs init)) \<longrightarrow>
      promises (clear (run evs init)) (ident it) = None \<and>
      promises (resume (ident it) (clear (run evs init))) (ident it) = Some r)"
proof -
  define s where "s = run evs init"
  have inv: "queueInv s" unfolding s_def by (rule run_queueInv)
  then have inv': "queueInv (clear s)" by (rule clear_queueInv)
  have d: "distinct (map ident (queue s))"
    using inv by (simp add: queueInv_def promiseInv_def pendingIds_def)
  have n: "\<forall>it \<in> set (queue s). promises s (ident it) = None"
    using inv by (simp add: queueInv_def promiseInv_def)
  have a: "queueLength (clear s) = 0" by (simp add: queueLength_def clear_def)
  have b: "\<forall>it \<in> set (queue s).
      promises (clear s) (ident it) = Some (Rejected (Error ''Queue cleared''))"
    using rejectQueued_promises [OF d n] by (simp add: clear_def)
  have c: "awaiting (clear s) = awaiting s" "isProcessing (clear s) = isProcessing s"
    by (simp_all add: clear_def)
  have e: "promises (clear s) (ident it) = None \<and>
      promises (resume (ident it) (thunkSettles (ident it) r (clear s))) (ident it) = Some r"
    if "(it, Running) \<in> set (awaiting s)" for it r
  proof -
    from that c have r: "(it, Running) \<in> set (awaiting (clear s))" by simp
    with inv' have "promises (clear s) (ident it) = None"
      by (auto simp: queueInv_def promiseInv_def)
    moreover have "queueInv (thunkSettles (ident it) r (clear s))"
      using step_queueInv [OF inv', of "ThunkSettles (ident it) r"] by simp
    from resume_delivers [OF this thunkSettles_completes [OF inv' r]]
    have "promises (resume (ident it) (thunkSettles (ident it) r (clear s))) (ident it) = Some r" .
    ultimately show ?thesis by simp
  qed
  have f: "promises (clear s) (ident it) = None \<and>
      promises (resume (ident it) (clear s)) (ident it) = Some r"
    if "(it, Completed r) \<in> set (awaiting s)" for it r
  proof -
    from that c have r: "(it, Completed r) \<in> set (awaiting (clear s))" by simp
    with inv' have "promises (clear s) (ident it) = None"
      by (auto simp: queueInv_def promiseInv_def)
    moreover from resume_delivers [OF inv' r]
    have "promises (resume (ident it) (clear s)) (ident it) = Some r" .
    ultimately show ?thesis by simp
  qed
  from a b c e f show ?thesis unfolding s_def by blast
qed

text \<open>
  Two calls of \<^verbatim>\<open>enqueue\<close>: operation 0 is in flight, operation 1 is pending. In the
  second state the thunk of operation 0 has settled with 7 before \<^verbatim>\<open>clear()\<close> is called.
\<close>

theorem C7_witness:
  "queue (run [Enqueue ReturnsPromise, Enqueue ReturnsPromise] init)
     = [\<lparr>ident = 1, operation = ReturnsPromise\<rparr>] \<and>
   awaiting (run [Enqueue ReturnsPromise, Enqueue ReturnsPromise] init)
     = [(\<lparr>ident = 0, operation = ReturnsPromise\<rparr>, Running)] \<and>
   queueLength (clear (run [Enqueue ReturnsPromise, Enqueue ReturnsPromise] init)) = 0 \<and>
   promises (clear (run [Enqueue ReturnsPromise, Enqueue ReturnsPromise] init)) 1
     = Some (Rejected (Error ''Queue cleared'')) \<and>
   promises (clear (run [Enqueue ReturnsPromise, Enqueue ReturnsPromise] init)) 0 = None \<and>
   promises (resume 0 (thunkSettles 0 (Fulfilled (Num 7))
        (clear (run [Enqueue ReturnsPromise, Enqueue ReturnsPromise] init)))) 0
     = Some (Fulfilled (Num 7)) \<and>
   awaiting (run [Enqueue ReturnsPromise, Enqueue ReturnsPromise,
                  ThunkSettles 0 (Fulfilled (Num 7))] init)
     = [(\<lparr>ident = 0, operation = ReturnsPromise\<rparr>, Completed (Fulfilled (Num 7)))] \<and>
   promises (clear (run [Enqueue ReturnsPromise, Enqueue ReturnsPromise,
                         ThunkSettles 0 (Fulfilled (Num 7))] init)) 1
     = Some (Rejected (Error ''Queue cleared'')) \<and>
   promises (clear (run [Enqueue ReturnsPromise, Enqueue ReturnsPromise,
                         ThunkSettles 0 (Fulfilled (Num 7))] init)) 0 = None \<and>
   promises (resume 0 (clear (run [Enqueue ReturnsPromise, Enqueue ReturnsPromise,
                                   ThunkSettles 0 (Fulfilled (Num 7))] init))) 0
     = Some (Fulfilled (Num 7))"
proof -
  let ?s = "run [Enqueue ReturnsPromise, Enqueue ReturnsPromise] init"
  let ?u = "run [Enqueue ReturnsPromise, Enqueue ReturnsPromise,
                 ThunkSettles 0 (Fulfilled (Num 7))] init"
  have q: "queue ?s = [\<lparr>ident = 1, operation = ReturnsPromise\<rparr>]" by code_simp
  have a: "awaiting ?s = [(\<lparr>ident = 0, operation = ReturnsPromise\<rparr>, Running)]" by code_simp
  have qu: "queue ?u = [\<lparr>ident = 1, operation = ReturnsPromise\<rparr>]" by code_simp
  have au: "awaiting ?u = [(\<lparr>ident = 0, operation = ReturnsPromise\<rparr>, Completed (Fulfilled (Num 7)))]"
    by code_simp
  note u = C7_clear_rejects_pending_only
      [of "[Enqueue ReturnsPromise, Enqueue ReturnsPromise, ThunkSettles 0 (Fulfilled (Num 7))]"]
  from u have "\<forall>it \<in> set (queue ?u).
      promises (clear ?u) (ident it) = Some (Rejected (Error ''Queue cleared''))" by blast
  with qu have 4: "promises (clear ?u) 1 = Some (Rejected (Error ''Queue cleared''))" by simp
  from u have "\<forall>it r. (it, Completed r) \<in> set (awaiting ?u) \<longrightarrow>
      promises (clear ?u) (ident it) = None \<and>
      promises (resume (ident it) (clear ?u)) (ident it) = Some r"
    by blast
  from this [rule_format, of "\<lparr>ident = 0, operation = ReturnsPromise\<rparr>" "Fulfilled (Num 7)"] au
  have 5: "promises (clear ?u) 0 = None \<and>
      promises (resume 0 (clear ?u)) 0 = Some (Fulfilled (Num 7))"
    by simp
  note t = C7_clear_rejects_pending_only [of "[Enqueue ReturnsPromise, Enqueue ReturnsPromise]"]
  from t have "\<forall>it \<in> set (queue ?s).
      promises (clear ?s) (ident it) = Some (Rejected (Error ''Queue cleared''))" by blast
  with q have 1: "promises (clear ?s) 1 = Some (Rejected (Error ''Queue cleared''))" by simp
  from t have "\<forall>it r. (it, Running) \<in> set (awaiting ?s) \<longrightarrow>
      promises (clear ?s) (ident it) = None \<and>
      promises (resume (ident it) (thunkSettles (ident it) r (clear ?s))) (ident it) = Some r"
    by blast
  from this [rule_format, of "\<lparr>ident = 0, operation = ReturnsPromise\<rparr>" "Fulfilled (Num 7)"] a
  have 2: "promises (clear ?s) 0 = None \<and>
      promises (resume 0 (thunkSettles 0 (Fulfilled (Num 7)) (clear ?s))) 0 = Some (Fulfilled (Num 7))"
    by simp
  from t have 3: "queueLength (clear ?s) = 0" by blast
  from q a 1 2 3 au 4 5 show ?thesis by blast
qed

text \<open>
  C8. The pending queue never holds more than one entry: after any sequence of
  \<^verbatim>\<open>enqueue\<close> calls, \<^verbatim>\<open>clear\<close> calls, thunk completions and continuations of
  \<^verbatim>\<open>processQueue\<close>, started from a fresh queue, \<open>queueLength\<close> is at most 1.
\<close>

theorem C8_queueLength_le_1: "queueLength (run evs init) \<le> 1"
proof (induction evs rule: rev_induct)
  case Nil
  show ?case by (simp add: run_def init_def queueLength_def)
next
  case (snoc ev evs)
  then show ?case
    using step_queue_le [of "run evs init" ev]
    by (simp add: run_snoc queueLength_def)
qed

section \<open>Properties of the rounding\<close>

lemma binexp_bounds:
  assumes "0 < r"
  shows "2 powi binexp r \<le> r \<and> r < 2 powi (binexp r + 1)"
proof -
  obtain p q where pq: "quotient_of r = (p, q)" by (cases "quotient_of r")
  then have q: "0 < q" by (rule quotient_of_denom_pos)
  have r: "r = of_int p / of_int q" using pq by (rule quotient_of_div)
  have p: "0 < p" using assms q r by (simp add: zero_less_divide_iff)
  define bp where "bp = bitlen p"
  define bq where "bq = bitlen q"
  have bp1: "1 \<le> bp" using p bitlen_eq_zero_iff [of p] bitlen_nonneg [of p] by (simp add: bp_def)
  have bq1: "1 \<le> bq" using q bitlen_eq_zero_iff [of q] bitlen_nonneg [of q] by (simp add: bq_def)
  have pb: "2 ^ nat (bp - 1) \<le> p" "p < 2 ^ nat bp"
    using bitlen_bounds [OF p] by (simp_all add: bp_def)
  have qb: "2 ^ nat (bq - 1) \<le> q" "q < 2 ^ nat bq"
    using bitlen_bounds [OF q] by (simp_all add: bq_def)
  have pr: "(2::rat) powi (bp - 1) \<le> of_int p" "of_int p < (2::rat) powi bp"
  proof -
    have "(of_int (2 ^ nat (bp - 1)) :: rat) \<le> of_int p" using pb(1) by (simp only: of_int_le_iff)
    then show "(2::rat) powi (bp - 1) \<le> of_int p" using bp1 by (simp add: power_int_nonneg_exp)
    have "(of_int p :: rat) < of_int (2 ^ nat bp)" using pb(2) by (simp only: of_int_less_iff)
    then show "of_int p < (2::rat) powi bp" using bp1 by (simp add: power_int_nonneg_exp)
  qed
  have qr: "(2::rat) powi (bq - 1) \<le> of_int q" "of_int q < (2::rat) powi bq"
  proof -
    have "(of_int (2 ^ nat (bq - 1)) :: rat) \<le> of_int q" using qb(1) by (simp only: of_int_le_iff)
    then show "(2::rat) powi (bq - 1) \<le> of_int q" using bq1 by (simp add: power_int_nonneg_exp)
    have "(of_int q :: rat) < of_int (2 ^ nat bq)" using qb(2) by (simp only: of_int_less_iff)
    then show "of_int q < (2::rat) powi bq" using bq1 by (simp add: power_int_nonneg_exp)
  qed
  have qpos: "(0::rat) < of_int q" using q by simp
  have pw: "(0::rat) < 2 powi n" for n by (simp add: zero_less_power_int)
  have up: "r < 2 powi (bp - bq + 1)"
  proof -
    have "r * of_int q = of_int p" using qpos r by simp
    also have "\<dots> < 2 powi bp" by (rule pr(2))
    also have "\<dots> = 2 powi (bp - bq + 1) * (2::rat) powi (bq - 1)"
      by (simp add: power_int_add [symmetric])
    also have "\<dots> \<le> 2 powi (bp - bq + 1) * of_int q"
      using qr(1) pw [of "bp - bq + 1"] by (simp add: mult_left_mono)
    finally show ?thesis using qpos by simp
  qed
  have lo: "2 powi (bp - bq - 1) \<le> r"
  proof -
    have "2 powi (bp - bq - 1) * of_int q \<le> 2 powi (bp - bq - 1) * (2::rat) powi bq"
      using qr(2) pw [of "bp - bq - 1"] by (simp add: mult_left_mono)
    also have "\<dots> = 2 powi (bp - 1)"
      by (simp add: power_int_add [symmetric])
    also have "\<dots> \<le> of_int p" by (rule pr(1))
    also have "\<dots> = r * of_int q" using qpos r by simp
    finally show ?thesis using qpos by simp
  qed
  show ?thesis
  proof (cases "2 powi (bp - bq) \<le> r")
    case True
    then have "binexp r = bp - bq" by (simp add: binexp_def pq bp_def bq_def)
    with True up show ?thesis by simp
  next
    case False
    then have "binexp r = bp - bq - 1" by (simp add: binexp_def pq bp_def bq_def)
    with False lo show ?thesis by simp
  qed
qed

lemma roundHalfEven_error: "\<bar>of_int (roundHalfEven m) - m\<bar> \<le> 1 / 2"
proof -
  have "of_int \<lfloor>m\<rfloor> \<le> m" "m < of_int \<lfloor>m\<rfloor> + 1" by linarith+
  then show ?thesis by (auto simp: roundHalfEven_def Let_def)
qed

lemma roundHalfEven_of_int [simp]: "roundHalfEven (of_int z) = z"
  by (simp add: roundHalfEven_def)

lemma fl_error:
  assumes "0 < r"
  shows "\<bar>fl r - r\<bar> \<le> r / 2 ^ 53"
proof -
  define u :: rat where "u = 2 powi (binexp r - 52)"
  have upos: "0 < u" by (simp add: u_def zero_less_power_int)
  have "2 powi binexp r \<le> r" using binexp_bounds [OF assms] by simp
  moreover have "(2::rat) powi binexp r = 2 ^ 52 * u"
    unfolding u_def by (simp add: power_int_diff)
  ultimately have ru: "2 ^ 52 * u \<le> r" by simp
  have f: "fl r = of_int (roundHalfEven (r / u)) * u"
    using assms by (simp add: fl_def u_def Let_def)
  have "fl r - r = (of_int (roundHalfEven (r / u)) - r / u) * u"
    using upos by (simp add: f left_diff_distrib)
  then have "\<bar>fl r - r\<bar> = \<bar>of_int (roundHalfEven (r / u)) - r / u\<bar> * u"
    using upos by (simp add: abs_mult)
  also have "\<dots> \<le> 1 / 2 * u"
    using roundHalfEven_error [of "r / u"] upos by (simp add: mult_right_mono)
  also have "\<dots> \<le> r / 2 ^ 53" using ru by simp
  finally show ?thesis .
qed

lemma fl_nonneg: "0 \<le> r \<Longrightarrow> 0 \<le> fl r"
proof (cases "r = 0")
  case True
  then show ?thesis by (simp add: fl_def)
next
  case False
  assume "0 \<le> r"
  with False have r: "0 < r" by simp
  from fl_error [OF r] have "r - r / 2 ^ 53 \<le> fl r" by linarith
  moreover have "0 \<le> r - r / 2 ^ 53" using r by (simp add: field_simps)
  ultimately show ?thesis by linarith
qed

lemma fl_of_nat:
  assumes "n < 2 ^ 53"
  shows "fl (of_nat n) = of_nat n"
proof (cases "n = 0")
  case True
  then show ?thesis by (simp add: fl_def)
next
  case False
  then have pos: "(0::rat) < of_nat n" by simp
  define e where "e = binexp (of_nat n)"
  have b: "2 powi e \<le> (of_nat n :: rat)" "(of_nat n :: rat) < 2 powi (e + 1)"
    using binexp_bounds [OF pos] by (simp_all add: e_def)
  have "(1::rat) \<le> of_nat n" using False by (simp add: Suc_le_eq)
  with b(2) have "(2::rat) powi 0 < 2 powi (e + 1)" by simp
  then have e0: "0 \<le> e"
    using power_int_increasing [of "e + 1" 0 "2::rat"] by (cases "0 \<le> e") auto
  have "(of_nat n :: rat) < 2 ^ 53" using assms by (metis of_nat_less_iff of_nat_numeral of_nat_power)
  with b(1) have "(2::rat) powi e < 2 powi 53" by simp
  then have e52: "e \<le> 52"
    using power_int_increasing [of 53 e "2::rat"] by (cases "e \<le> 52") auto
  define k where "k = nat (52 - e)"
  have u: "(2::rat) powi (e - 52) = 1 / 2 ^ k"
    using e52 by (simp add: k_def power_int_minus_divide [of 2 "52 - e", simplified] power_int_nonneg_exp)
  have m: "(of_nat n :: rat) * 2 ^ k = of_int (int n * 2 ^ k)" by simp
  have "roundHalfEven (of_nat n * 2 ^ k) = int n * 2 ^ k"
    by (simp only: m roundHalfEven_of_int)
  then show ?thesis
    using pos by (simp add: fl_def e_def [symmetric] u Let_def)
qed

lemma unitRoundoff_pos: "0 < unitRoundoff"
  by (simp add: unitRoundoff_def)

lemma unitRoundoff_small:
  assumes "(a::rat) < 2 ^ 53"
  shows "a * unitRoundoff < 1"
proof -
  have "a * unitRoundoff = a / 2 ^ 53" by (simp add: unitRoundoff_def)
  also have "\<dots> < 1" using assms by (simp only: divide_less_eq_1_pos zero_less_power zero_less_numeral)
  finally show ?thesis .
qed

lemma fl_upper: "0 < r \<Longrightarrow> fl r \<le> r * (1 + unitRoundoff)"
proof -
  assume "0 < r"
  from fl_error [OF this] have "fl r - r \<le> r * unitRoundoff"
    by (simp only: abs_le_iff unitRoundoff_def times_divide_eq_right mult_1_right)
  then show ?thesis by (simp add: distrib_left)
qed

lemma fl_lower: "0 < r \<Longrightarrow> r * (1 - unitRoundoff) \<le> fl r"
proof -
  assume "0 < r"
  from fl_error [OF this] have "- (fl r - r) \<le> r * unitRoundoff"
    by (simp only: abs_le_iff unitRoundoff_def times_divide_eq_right mult_1_right)
  then show ?thesis by (simp add: right_diff_distrib)
qed

text \<open>Truncating the double quotient of two integers gives the integer quotient.\<close>

lemma floor_fl_div:
  assumes w: "0 < w" and small: "k + w < 2 ^ 53"
  shows "\<lfloor>fl (of_nat k / of_nat w)\<rfloor> = int (k div w)"
proof (cases "k mod w = 0")
  case True
  then have "k = k div w * w" using div_mult_mod_eq [of k w] by simp
  then have "(of_nat k :: rat) = of_nat (k div w) * of_nat w"
    by (metis of_nat_mult)
  then have "(of_nat k :: rat) / of_nat w = of_nat (k div w)"
    using w by simp
  moreover have "k div w < 2 ^ 53"
    using small div_le_dividend [of k w] by linarith
  ultimately show ?thesis by (simp add: fl_of_nat)
next
  case False
  define n where "n = k div w"
  define m where "m = k mod w"
  have k: "k = n * w + m" by (simp add: n_def m_def)
  have m: "1 \<le> m" "m + 1 \<le> w" using False w by (simp_all add: m_def Suc_le_eq)
  define q :: rat where "q = of_nat k / of_nat w"
  define N :: rat where "N = of_nat n * of_nat w"
  define M :: rat where "M = of_nat m"
  define W :: rat where "W = of_nat w"
  define u where "u = unitRoundoff"
  have wpos: "0 < W" using w by (simp add: W_def)
  have m1: "1 \<le> M" "M + 1 \<le> W"
  proof -
    have "(of_nat 1 :: rat) \<le> of_nat m" using m(1) by (simp only: of_nat_le_iff)
    then show "1 \<le> M" by (simp add: M_def)
    have "(of_nat (m + 1) :: rat) \<le> of_nat w" using m(2) by (simp only: of_nat_le_iff)
    then show "M + 1 \<le> W" by (simp add: M_def W_def)
  qed
  have N0: "0 \<le> N" by (simp add: N_def)
  have qw: "q * W = N + M"
    using w by (simp add: q_def k N_def M_def W_def)
  have "0 < q * W" using qw N0 m1 by linarith
  then have qpos: "0 < q" using wpos by (simp add: zero_less_mult_iff)
  have nw: "N + W < 2 ^ 53"
  proof -
    have "n * w + w \<le> k + w" by (simp add: k)
    with small have "n * w + w < 2 ^ 53" by linarith
    then have "(of_nat (n * w + w) :: rat) < of_nat (2 ^ 53)" by (simp only: of_nat_less_iff)
    then show ?thesis by (simp add: N_def W_def)
  qed
  have "N + M < 2 ^ 53" using nw m1 by linarith
  then have small_u: "(N + M) * u < 1" unfolding u_def by (rule unitRoundoff_small)
  have lo: "of_nat n \<le> fl q"
  proof -
    have "q * (1 - u) * W = q * W * (1 - u)" by (simp add: ac_simps)
    also have "\<dots> = (N + M) * (1 - u)" by (simp only: qw)
    also have "\<dots> = N + M - (N + M) * u"
      by (simp add: algebra_simps)
    finally have "N \<le> q * (1 - u) * W" using small_u m1 by linarith
    then have "of_nat n * W \<le> q * (1 - u) * W" by (simp add: N_def W_def)
    then have "of_nat n \<le> q * (1 - u)" using wpos by (simp only: mult_le_cancel_right_pos)
    with fl_lower [OF qpos] show ?thesis unfolding u_def by linarith
  qed
  have hi: "fl q < of_nat n + 1"
  proof -
    have "q * (1 + u) * W = q * W * (1 + u)" by (simp add: ac_simps)
    also have "\<dots> = (N + M) * (1 + u)" by (simp only: qw)
    also have "\<dots> = N + M + (N + M) * u"
      by (simp add: algebra_simps)
    finally have "q * (1 + u) * W < N + W" using small_u m1 by linarith
    also have "N + W = (of_nat n + 1) * W" by (simp add: N_def W_def algebra_simps)
    finally have "q * (1 + u) < of_nat n + 1" using wpos by (simp only: mult_less_cancel_right_pos)
    with fl_upper [OF qpos] show ?thesis unfolding u_def by linarith
  qed
  have "\<lfloor>fl q\<rfloor> = int n"
    using lo hi by (simp add: floor_unique)
  then show ?thesis by (simp add: q_def n_def)
qed

lemma fl_zero [simp]: "fl 0 = 0"
  by (simp add: fl_def)

lemma fl_pos: "0 < r \<Longrightarrow> 0 < fl r"
proof -
  assume r: "0 < r"
  have "unitRoundoff < 1" by (simp add: unitRoundoff_def)
  then have "0 < r * (1 - unitRoundoff)" using r by simp
  with fl_lower [OF r] show ?thesis by linarith
qed

text \<open>Scaling a coordinate below the image width stays below the mask width.\<close>

lemma floor_fl_scale_less:
  assumes iw: "x < iw" "iw \<le> 2 ^ 32" and mw: "0 < mw"
  shows "\<lfloor>fl (of_nat x * fl (of_nat mw / of_nat iw))\<rfloor> < int mw"
proof (cases "x = 0")
  case True
  with mw show ?thesis by simp
next
  case False
  define X :: rat where "X = of_nat x"
  define W :: rat where "W = of_nat iw"
  define M :: rat where "M = of_nat mw"
  define u where "u = unitRoundoff"
  define s where "s = fl (M / W)"
  have X: "0 < X" "X + 1 \<le> W"
  proof -
    show "0 < X" using False by (simp add: X_def)
    have "x + 1 \<le> iw" using iw(1) by simp
    then have "(of_nat (x + 1) :: rat) \<le> of_nat iw" by (simp only: of_nat_le_iff)
    then show "X + 1 \<le> W" by (simp add: X_def W_def)
  qed
  have W: "0 < W" using X by linarith
  have M: "0 < M" using mw by (simp add: M_def)
  have u: "0 < u" "u < 1" by (simp_all add: u_def unitRoundoff_def)
  have W32: "W \<le> 2 ^ 32"
  proof -
    have "(of_nat iw :: rat) \<le> of_nat (2 ^ 32)" using iw(2) by (simp only: of_nat_le_iff)
    then show ?thesis by (simp add: W_def)
  qed
  have q: "0 < M / W" using M W by simp
  have s: "0 < s" "s \<le> M / W * (1 + u)"
    unfolding s_def u_def using fl_pos [OF q] fl_upper [OF q] by simp_all
  have p: "0 < X * s" using X s by simp
  have "fl (X * s) \<le> X * s * (1 + u)" unfolding u_def by (rule fl_upper [OF p])
  also have "\<dots> \<le> X * (M / W * (1 + u)) * (1 + u)"
  proof -
    have "X * s \<le> X * (M / W * (1 + u))"
      using s(2) X(1) by (simp only: mult_left_mono less_imp_le)
    moreover have "0 \<le> 1 + u" using u by simp
    ultimately show ?thesis by (rule mult_right_mono)
  qed
  also have "\<dots> = M * (X * ((1 + u) * (1 + u)) / W)" by (simp add: ac_simps)
  also have "\<dots> < M * 1"
  proof -
    have "3 * W < 2 ^ 53" using W32 by simp
    then have "3 * W * u < 1" unfolding u_def by (rule unitRoundoff_small)
    moreover have "u * u \<le> u" using u by (simp add: mult_left_le)
    moreover have "(1 + u) * (1 + u) = 1 + 2 * u + u * u" by (simp add: algebra_simps)
    ultimately have uu: "(1 + u) * (1 + u) \<le> 1 + 3 * u" by linarith
    have "X * ((1 + u) * (1 + u)) \<le> X * (1 + 3 * u)"
      using uu X(1) by (simp only: mult_left_mono less_imp_le)
    also have "\<dots> = X + 3 * X * u" by (simp add: algebra_simps)
    also have "\<dots> \<le> X + 3 * W * u"
      using X u by (simp add: mult_right_mono)
    also have "\<dots> < X + 1" using \<open>3 * W * u < 1\<close> by simp
    also have "\<dots> \<le> W" by (rule X(2))
    finally have "X * ((1 + u) * (1 + u)) / W < 1" using W by simp
    with M show ?thesis by (simp only: mult_less_cancel_left_pos)
  qed
  finally have "fl (X * s) < of_int (int mw)" by (simp add: M_def)
  then have "\<lfloor>fl (X * s)\<rfloor> < int mw" by (simp only: floor_less_iff)
  then show ?thesis by (simp add: X_def s_def M_def W_def)
qed

lemma floor_fl_scale_nonneg: "0 \<le> \<lfloor>fl (of_nat x * fl (of_nat mw / of_nat iw))\<rfloor>"
proof -
  have "(0::rat) \<le> of_nat mw / of_nat iw" by simp
  then have "0 \<le> fl (of_nat mw / of_nat iw)" by (rule fl_nonneg)
  then have "0 \<le> of_nat x * fl (of_nat mw / of_nat iw)" by simp
  then have "0 \<le> fl (of_nat x * fl (of_nat mw / of_nat iw))" by (rule fl_nonneg)
  then show ?thesis by simp
qed

section \<open>Properties of the mask utilities\<close>

lemma tightBounds_unique:
  assumes "tightBounds r l t rt b" "tightBounds r l' t' rt' b'"
  shows "l = l' \<and> t = t' \<and> rt = rt' \<and> b = b'"
  using assms unfolding tightBounds_def by (meson order_antisym)

lemma fold_nested:
  "fold (\<lambda>y. fold (g y) xs) ys a
     = fold (\<lambda>p. g (fst p) (snd p)) (concat (map (\<lambda>y. map (Pair y) xs) ys)) a"
proof (induction ys arbitrary: a)
  case Nil
  show ?case by simp
next
  case (Cons y ys)
  have "fold (\<lambda>p. g (fst p) (snd p)) (map (Pair y) xs) a = fold (g y) xs a"
    by (simp add: fold_map comp_def)
  with Cons show ?case by simp
qed

lemma boundsPixel_content:
  "isContent msk (y, x) \<Longrightarrow>
   boundsPixel msk y x (a, b, c, d) = (min a (int x), min b (int y), max c (int x), max d (int y))"
  by (auto simp: boundsPixel_def isContent_def alphaAt_def word_greater_zero_iff
      split: option.splits)

lemma boundsPixel_no_content:
  "\<not> isContent msk (y, x) \<Longrightarrow> boundsPixel msk y x acc = acc"
  by (auto simp: boundsPixel_def isContent_def alphaAt_def word_greater_zero_iff
      split: option.splits prod.splits)

lemma boundsInv_fold:
  assumes "\<forall>p \<in> set ps. int (snd p) < W \<and> int (fst p) < H"
  shows "boundsInv msk W H ps
           (fold (\<lambda>p. boundsPixel msk (fst p) (snd p)) ps (W, H, - 1, - 1))"
  using assms
proof (induction ps rule: rev_induct)
  case Nil
  show ?case by (simp add: boundsInv_def)
next
  case (snoc p ps)
  define acc where "acc = fold (\<lambda>p. boundsPixel msk (fst p) (snd p)) ps (W, H, - 1, - 1)"
  obtain a b c d where acc: "acc = (a, b, c, d)" by (cases acc) auto
  from snoc have inv: "boundsInv msk W H ps (a, b, c, d)"
    by (simp add: acc_def [symmetric] acc)
  from snoc.prems have pb: "int (snd p) < W" "int (fst p) < H"
    by simp_all
  obtain y x where p: "p = (y, x)" by (cases p) auto
  have res: "fold (\<lambda>p. boundsPixel msk (fst p) (snd p)) (ps @ [p]) (W, H, - 1, - 1)
      = boundsPixel msk y x (a, b, c, d)"
    by (simp add: acc_def [symmetric] acc p)
  show ?case
  proof (cases "isContent msk p")
    case False
    then have "boundsPixel msk y x (a, b, c, d) = (a, b, c, d)"
      by (simp add: p boundsPixel_no_content)
    with inv False show ?thesis
      unfolding res by (simp add: boundsInv_def)
  next
    case True
    then have st: "boundsPixel msk y x (a, b, c, d)
        = (min a (int x), min b (int y), max c (int x), max d (int y))"
      by (simp add: p boundsPixel_content)
    show ?thesis
    proof (cases "\<forall>q \<in> set ps. \<not> isContent msk q")
      case True
      with inv have abcd: "a = W" "b = H" "c = - 1" "d = - 1"
        by (simp_all add: boundsInv_def)
      have "boundsPixel msk y x (a, b, c, d) = (int x, int y, int x, int y)"
        using st pb by (simp add: abcd p min_def max_def)
      with \<open>isContent msk p\<close> True show ?thesis
        unfolding res by (auto simp add: boundsInv_def p)
    next
      case False
      with inv \<open>isContent msk p\<close> show ?thesis
        unfolding res st boundsInv_def
        apply (simp add: p)
        apply (intro conjI)
        apply (auto simp: min_def max_def)
        done
    qed
  qed
qed

lemma set_scan_order:
  "set (concat (map (\<lambda>y. map (Pair y) [0..<w]) [0..<h])) = {p. fst p < h \<and> snd p < w}"
  by auto

lemma getMaskBounds_scan:
  "getMaskBounds msk =
     (case fold (\<lambda>p. boundsPixel msk (fst p) (snd p))
             (concat (map (\<lambda>y. map (Pair y) [0..<unat (width msk)]) [0..<unat (height msk)]))
             (int (unat (width msk)), int (unat (height msk)), - 1, - 1) of
        (minX, minY, maxX, maxY) \<Rightarrow>
          if maxX = - 1 then None
          else Some \<lparr>mb_left = minX, mb_top = minY, mb_right = maxX, mb_bottom = maxY,
                     mb_width = maxX - minX + 1, mb_height = maxY - minY + 1\<rparr>)"
  unfolding getMaskBounds_def fold_nested ..

lemma getMaskBounds_cases:
  "(\<not> (\<exists>x y. content msk x y) \<and> getMaskBounds msk = None) \<or>
   (\<exists>l t r b. tightBounds msk l t r b \<and>
      getMaskBounds msk = Some \<lparr>mb_left = l, mb_top = t, mb_right = r, mb_bottom = b,
                                 mb_width = r - l + 1, mb_height = b - t + 1\<rparr>)"
proof -
  define W where "W = int (unat (width msk))"
  define H where "H = int (unat (height msk))"
  define ps where "ps = concat (map (\<lambda>y. map (Pair y) [0..<unat (width msk)]) [0..<unat (height msk)])"
  define acc where "acc = fold (\<lambda>p. boundsPixel msk (fst p) (snd p)) ps (W, H, - 1, - 1)"
  have sp: "set ps = {p. fst p < unat (height msk) \<and> snd p < unat (width msk)}"
    unfolding ps_def by (rule set_scan_order)
  have c: "content msk x y \<longleftrightarrow> (y, x) \<in> set ps \<and> isContent msk (y, x)" for x y
    by (auto simp: sp content_def isContent_def)
  have "\<forall>p \<in> set ps. int (snd p) < W \<and> int (fst p) < H"
    by (simp add: sp W_def H_def del: of_nat_unat)
  then have inv: "boundsInv msk W H ps acc"
    unfolding acc_def by (rule boundsInv_fold)
  obtain minX minY maxX maxY where a: "acc = (minX, minY, maxX, maxY)" by (cases acc) auto
  have g: "getMaskBounds msk =
      (if maxX = - 1 then None
       else Some \<lparr>mb_left = minX, mb_top = minY, mb_right = maxX, mb_bottom = maxY,
                  mb_width = maxX - minX + 1, mb_height = maxY - minY + 1\<rparr>)"
    unfolding getMaskBounds_scan ps_def [symmetric] W_def [symmetric] H_def [symmetric]
      acc_def [symmetric] a by simp
  show ?thesis
  proof (cases "\<forall>p \<in> set ps. \<not> isContent msk p")
    case True
    with inv have "maxX = - 1" by (simp add: boundsInv_def a)
    moreover have "\<not> (\<exists>x y. content msk x y)" using True c by blast
    ultimately show ?thesis using g by simp
  next
    case False
    with inv have i:
      "\<exists>p \<in> set ps. isContent msk p \<and> minX = int (snd p)"
      "\<exists>p \<in> set ps. isContent msk p \<and> minY = int (fst p)"
      "\<exists>p \<in> set ps. isContent msk p \<and> maxX = int (snd p)"
      "\<exists>p \<in> set ps. isContent msk p \<and> maxY = int (fst p)"
      "\<forall>p \<in> set ps. isContent msk p \<longrightarrow>
                minX \<le> int (snd p) \<and> int (snd p) \<le> maxX \<and>
                minY \<le> int (fst p) \<and> int (fst p) \<le> maxY"
      by (simp_all add: boundsInv_def a)
    from i(3) have "maxX \<noteq> - 1" by auto
    moreover have "tightBounds msk minX minY maxX maxY"
      unfolding tightBounds_def
    proof (intro conjI allI impI)
      from i(1) obtain p where "p \<in> set ps" "isContent msk p" "minX = int (snd p)" by blast
      then show "\<exists>x y. content msk x y \<and> int x = minX" using c [of "snd p" "fst p"] by auto
      from i(2) obtain p where "p \<in> set ps" "isContent msk p" "minY = int (fst p)" by blast
      then show "\<exists>x y. content msk x y \<and> int y = minY" using c [of "snd p" "fst p"] by auto
      from i(3) obtain p where "p \<in> set ps" "isContent msk p" "maxX = int (snd p)" by blast
      then show "\<exists>x y. content msk x y \<and> int x = maxX" using c [of "snd p" "fst p"] by auto
      from i(4) obtain p where "p \<in> set ps" "isContent msk p" "maxY = int (fst p)" by blast
      then show "\<exists>x y. content msk x y \<and> int y = maxY" using c [of "snd p" "fst p"] by auto
    next
      fix x y
      assume "content msk x y"
      then have "(y, x) \<in> set ps" "isContent msk (y, x)" using c by auto
      with i(5) show "minX \<le> int x" "int x \<le> maxX" "minY \<le> int y" "int y \<le> maxY" by auto
    qed
    ultimately show ?thesis using g by auto
  qed
qed

text \<open>
  C5. \<open>getMaskBounds\<close> returns \<^verbatim>\<open>null\<close> exactly when no pixel has a nonzero alpha byte;
  otherwise it returns the inclusive tight bounding box of those pixels, with
  \<open>width = right - left + 1\<close> and \<open>height = bottom - top + 1\<close>. In particular a mask of
  10x10 pixels whose only pixel of nonzero alpha is (5, 5) gives left, top, right and bottom
  5 and width and height 1.
\<close>

theorem C5_getMaskBounds_tight:
  "(getMaskBounds msk = None \<longleftrightarrow> \<not> (\<exists>x y. content msk x y)) \<and>
   (\<forall>b. getMaskBounds msk = Some b \<longrightarrow>
      tightBounds msk (mb_left b) (mb_top b) (mb_right b) (mb_bottom b) \<and>
      mb_width b = mb_right b - mb_left b + 1 \<and>
      mb_height b = mb_bottom b - mb_top b + 1) \<and>
   (width msk = 10 \<and> height msk = 10 \<and> (\<forall>x y. content msk x y \<longleftrightarrow> x = 5 \<and> y = 5) \<longrightarrow>
      getMaskBounds msk = Some \<lparr>mb_left = 5, mb_top = 5, mb_right = 5, mb_bottom = 5,
                                 mb_width = 1, mb_height = 1\<rparr>)"
proof (intro conjI allI impI)
  show "getMaskBounds msk = None \<longleftrightarrow> \<not> (\<exists>x y. content msk x y)"
    using getMaskBounds_cases [of msk] by (auto simp: tightBounds_def)
next
  fix b
  assume "getMaskBounds msk = Some b"
  with getMaskBounds_cases [of msk]
  show "tightBounds msk (mb_left b) (mb_top b) (mb_right b) (mb_bottom b)"
    "mb_width b = mb_right b - mb_left b + 1"
    "mb_height b = mb_bottom b - mb_top b + 1"
    by auto
next
  assume a: "width msk = 10 \<and> height msk = 10 \<and> (\<forall>x y. content msk x y \<longleftrightarrow> x = 5 \<and> y = 5)"
  then have t: "tightBounds msk 5 5 5 5" by (simp add: tightBounds_def)
  from a have "\<exists>x y. content msk x y" by blast
  with getMaskBounds_cases [of msk] obtain l t' r b where
    tb: "tightBounds msk l t' r b" and
    g: "getMaskBounds msk = Some \<lparr>mb_left = l, mb_top = t', mb_right = r, mb_bottom = b,
                                 mb_width = r - l + 1, mb_height = b - t' + 1\<rparr>"
    by blast
  from tightBounds_unique [OF tb t] g
  show "getMaskBounds msk = Some \<lparr>mb_left = 5, mb_top = 5, mb_right = 5, mb_bottom = 5,
                                 mb_width = 1, mb_height = 1\<rparr>"
    by simp
qed

lemma toInt32_floor:
  assumes "0 \<le> v" "\<lfloor>v\<rfloor> < 2 ^ 31"
  shows "toInt32 v = \<lfloor>v\<rfloor>"
proof -
  have "0 \<le> \<lfloor>v\<rfloor>" using assms(1) by simp
  then have "(\<lfloor>v\<rfloor> + 2 ^ 31) mod 2 ^ 32 = \<lfloor>v\<rfloor> + 2 ^ 31"
    using assms(2) by (intro mod_pos_pos_trivial) simp_all
  then show ?thesis using assms(1) by (simp add: toInt32_def)
qed

lemma length_bitmap [simp]:
  "length (data (bitmap c)) = unat (width c) * unat (height c) * 4"
  by (simp add: bitmap_def Let_def)

lemma width_bitmap [simp]: "width (bitmap c) = width c"
  by (simp add: bitmap_def Let_def)

lemma height_bitmap [simp]: "height (bitmap c) = height c"
  by (simp add: bitmap_def Let_def)

lemma fold_filter_cond:
  "fold (\<lambda>k b. if c k then g k b else b) ks b0 = fold g (filter c ks) b0"
  by (induction ks arbitrary: b0) simp_all

text \<open>The scan of \<open>findBounds\<close>, with the row index as the integer quotient.\<close>

lemma findBounds_scan:
  assumes len: "length (data pixels) = w * h * 4" and w: "w = unat (width pixels)"
    and small: "w * h + w < 2 ^ 53" "h \<le> 2 ^ 31"
  shows "findBounds pixels =
     fold (\<lambda>k. growBound (int (k mod w)) (int (k div w)))
       (filter (opaqueIndex pixels) [0..<w * h]) emptyBound"
proof -
  have y: "toInt32 (fl (of_nat k / of_nat w)) = int (k div w)" if "k < w * h" for k
  proof -
    have w0: "0 < w" using that by (cases w) auto
    have "k + w < 2 ^ 53" using that small(1) by linarith
    then have f: "\<lfloor>fl (of_nat k / of_nat w)\<rfloor> = int (k div w)"
      using w0 by (intro floor_fl_div)
    have "k div w < h" using that by (simp add: less_mult_imp_div_less mult.commute)
    then have "k div w < 2 ^ 31" using small(2) by linarith
    then have "int (k div w) < int (2 ^ 31)" by (simp only: of_nat_less_iff)
    then have "int (k div w) < 2 ^ 31" by simp
    moreover have "(0::rat) \<le> fl (of_nat k / of_nat w)" by (intro fl_nonneg) simp
    ultimately show ?thesis using f by (simp add: toInt32_floor)
  qed
  have n: "(length (data pixels) + 3) div 4 = w * h" by (simp add: len)
  have d: "4 * k div 4 = k" for k :: nat by simp
  have "findBounds pixels =
      fold (\<lambda>k b. if opaqueIndex pixels k
                   then growBound (int (k mod w)) (toInt32 (fl (of_nat k / of_nat w))) b
                   else b) [0..<w * h] emptyBound"
    unfolding findBounds_def n w [symmetric] emptyBound_def fold_map
    by (rule arg_cong [where f = "\<lambda>f. fold f [0..<w * h] emptyBound", unfolded emptyBound_def])
       (auto simp: fun_eq_iff opaqueIndex_def d simp del: of_nat_mult)
  also have "\<dots> = fold (\<lambda>k b. if opaqueIndex pixels k
                   then growBound (int (k mod w)) (int (k div w)) b
                   else b) [0..<w * h] emptyBound"
    by (rule fold_cong) (simp_all add: y cong: if_cong)
  finally show ?thesis by (simp only: fold_filter_cond)
qed

lemma scanInv_fold:
  assumes "sorted ks"
  shows "scanInv w ks (fold (\<lambda>k. growBound (int (k mod w)) (int (k div w))) ks emptyBound)"
  using assms
proof (induction ks rule: rev_induct)
  case Nil
  show ?case by (simp add: scanInv_def)
next
  case (snoc k ks)
  define b where "b = fold (\<lambda>k. growBound (int (k mod w)) (int (k div w))) ks emptyBound"
  from snoc.prems have s: "sorted ks" "\<forall>j \<in> set ks. j \<le> k"
    by (simp_all add: sorted_append)
  from snoc.IH [OF s(1)] have inv: "scanInv w ks b" by (simp add: b_def)
  have res: "fold (\<lambda>k. growBound (int (k mod w)) (int (k div w))) (ks @ [k]) emptyBound
      = growBound (int (k mod w)) (int (k div w)) b"
    by (simp add: b_def)
  show ?case
  proof (cases "ks = []")
    case True
    with inv have "b = emptyBound" by (simp add: scanInv_def)
    then show ?thesis
      unfolding res by (simp add: True scanInv_def growBound_def emptyBound_def)
  next
    case False
    with inv have "\<exists>t l r m.
             b = \<lparr>top' = Some t, left = Some l, right = Some r, bottom = Some m\<rparr> \<and>
             (\<exists>k \<in> set ks. t = int (k div w)) \<and>
             (\<exists>k \<in> set ks. l = int (k mod w)) \<and>
             (\<exists>k \<in> set ks. r = int (k mod w)) \<and>
             (\<exists>k \<in> set ks. m = int (k div w)) \<and>
             (\<forall>k \<in> set ks. l \<le> int (k mod w) \<and> int (k mod w) \<le> r \<and>
                             t \<le> int (k div w) \<and> int (k div w) \<le> m)"
      by (simp add: scanInv_def)
    then obtain t l r m where
      b: "b = \<lparr>top' = Some t, left = Some l, right = Some r, bottom = Some m\<rparr>" and
      t: "\<exists>j \<in> set ks. t = int (j div w)" and
      l: "\<exists>j \<in> set ks. l = int (j mod w)" and
      r: "\<exists>j \<in> set ks. r = int (j mod w)" and
      m: "\<exists>j \<in> set ks. m = int (j div w)" and
      a: "\<forall>j \<in> set ks. l \<le> int (j mod w) \<and> int (j mod w) \<le> r \<and>
                             t \<le> int (j div w) \<and> int (j div w) \<le> m"
      by blast
    from t obtain j where "j \<in> set ks" "t = int (j div w)" by blast
    with s(2) have tk: "t \<le> int (k div w)" by (simp add: div_le_mono)
    have g: "growBound (int (k mod w)) (int (k div w)) b =
        \<lparr>top' = Some t, left = Some (min l (int (k mod w))),
         right = Some (max r (int (k mod w))), bottom = Some (max m (int (k div w)))\<rparr>"
      by (simp add: growBound_def b min_def max_def)
    show ?thesis
      unfolding res g scanInv_def
      using t l r m a tk
      apply simp
      apply (intro conjI)
      apply (auto simp: min_def max_def)
      done
  qed
qed

lemma lookup_nat:
  "lookup xs (int n + 3) = (if n + 3 < length xs then Some (xs ! (n + 3)) else None)"
proof -
  have "nat (int n + 3) = n + 3" by simp
  then show ?thesis by (simp add: lookup_def)
qed

lemma content_opaqueIndex:
  assumes len: "length (data pixels) = w * h * 4"
    and w: "w = unat (width pixels)" and h: "h = unat (height pixels)"
  shows "content pixels x y \<longleftrightarrow> x < w \<and> y < h \<and> opaqueIndex pixels (y * w + x)"
proof (cases "x < w \<and> y < h")
  case False
  then show ?thesis by (auto simp: content_def w h)
next
  case True
  then have "y * w + x < w * h"
    by (metis add.commute mult.commute mult_Suc_right nat_add_left_cancel_less
        less_le_trans Suc_leI mult_le_mono2 add_less_cancel_left)
  then have "(y * w + x) * 4 + 3 < length (data pixels)" by (simp add: len)
  then have "lookup (data pixels) (int ((y * w + x) * 4) + 3)
      = Some (data pixels ! ((y * w + x) * 4 + 3))"
    by (simp only: lookup_nat if_True)
  with True show ?thesis
    by (auto simp: content_def alphaAt_def opaqueIndex_def w [symmetric] h [symmetric] mult.commute)
qed

lemma index_less:
  fixes x y w h :: nat
  assumes "x < w" "y < h"
  shows "y * w + x < w * h"
proof -
  have "y * w + x < y * w + w" using assms(1) by simp
  also have "\<dots> = Suc y * w" by simp
  also have "\<dots> \<le> h * w" using assms(2) by (intro mult_le_mono1) simp
  finally show ?thesis by (simp add: mult.commute)
qed


lemma findBounds_tight:
  assumes small: "unat (width c) * unat (height c) + unat (width c) < 2 ^ 53"
      "unat (height c) \<le> 2 ^ 31"
    and tight: "tightBounds (bitmap c) l t r b"
  shows "findBounds (bitmap c)
           = \<lparr>top' = Some t, left = Some l, right = Some r, bottom = Some b\<rparr>"
proof -
  define pixels where "pixels = bitmap c"
  define w where "w = unat (width pixels)"
  define h where "h = unat (height pixels)"
  define ks where "ks = filter (opaqueIndex pixels) [0..<w * h]"
  have len: "length (data pixels) = w * h * 4"
    by (simp add: pixels_def w_def h_def)
  have sm: "w * h + w < 2 ^ 53" "h \<le> 2 ^ 31"
    using small by (simp_all add: w_def h_def pixels_def)
  note co = content_opaqueIndex [OF len w_def h_def]
  have fb: "findBounds pixels
      = fold (\<lambda>k. growBound (int (k mod w)) (int (k div w))) ks emptyBound"
    unfolding ks_def by (rule findBounds_scan [OF len w_def sm])
  have "sorted ks" unfolding ks_def by (rule sorted_wrt_filter) simp
  then have inv: "scanInv w ks (findBounds pixels)"
    unfolding fb by (rule scanInv_fold)
  have mem: "k \<in> set ks \<longleftrightarrow> k < w * h \<and> opaqueIndex pixels k" for k
    by (auto simp: ks_def)
  have ck: "content pixels (k mod w) (k div w)" if "k \<in> set ks" for k
  proof -
    from that have k: "k < w * h" "opaqueIndex pixels k" by (simp_all add: mem)
    have w0: "0 < w" using k(1) by (cases w) auto
    have "k mod w < w" using w0 by simp
    moreover have "k div w < h" using k(1) by (simp add: less_mult_imp_div_less mult.commute)
    ultimately show ?thesis using k(2) by (simp add: co)
  qed
  have kc: "y * w + x \<in> set ks \<and> (y * w + x) mod w = x \<and> (y * w + x) div w = y"
    if "content pixels x y" for x y
  proof -
    from that have c: "x < w" "y < h" "opaqueIndex pixels (y * w + x)" by (simp_all add: co)
    then show ?thesis by (simp add: mem index_less)
  qed
  from tight obtain x0 y0 where "content pixels x0 y0"
    unfolding tightBounds_def pixels_def by blast
  then have "ks \<noteq> []" using kc by fastforce
  with inv obtain t1 l1 r1 m1 where
      b: "findBounds pixels = \<lparr>top' = Some t1, left = Some l1, right = Some r1, bottom = Some m1\<rparr>" and
      t: "\<exists>j \<in> set ks. t1 = int (j div w)" and
      l: "\<exists>j \<in> set ks. l1 = int (j mod w)" and
      r: "\<exists>j \<in> set ks. r1 = int (j mod w)" and
      m: "\<exists>j \<in> set ks. m1 = int (j div w)" and
      a: "\<forall>j \<in> set ks. l1 \<le> int (j mod w) \<and> int (j mod w) \<le> r1 \<and>
                             t1 \<le> int (j div w) \<and> int (j div w) \<le> m1"
    unfolding scanInv_def by (simp split: if_splits) blast
  have "tightBounds pixels l1 t1 r1 m1"
    unfolding tightBounds_def
  proof (intro conjI allI impI)
    from l obtain j where "j \<in> set ks" "l1 = int (j mod w)" by blast
    then show "\<exists>x y. content pixels x y \<and> int x = l1" using ck by blast
    from t obtain j where "j \<in> set ks" "t1 = int (j div w)" by blast
    then show "\<exists>x y. content pixels x y \<and> int y = t1" using ck by blast
    from r obtain j where "j \<in> set ks" "r1 = int (j mod w)" by blast
    then show "\<exists>x y. content pixels x y \<and> int x = r1" using ck by blast
    from m obtain j where "j \<in> set ks" "m1 = int (j div w)" by blast
    then show "\<exists>x y. content pixels x y \<and> int y = m1" using ck by blast
  next
    fix x y
    assume "content pixels x y"
    from kc [OF this] a
    show "l1 \<le> int x" "int x \<le> r1" "t1 \<le> int y" "int y \<le> m1" by fastforce+
  qed
  from tightBounds_unique [OF this tight [folded pixels_def]] b
  show ?thesis by (simp add: pixels_def)
qed


lemma content_size:
  assumes "content (bitmap c) x y"
  shows "width c \<noteq> 0 \<and> height c \<noteq> 0"
proof -
  from assms have "x < unat (width c)" "y < unat (height c)" by (simp_all add: content_def)
  then show ?thesis by auto
qed

lemma trim_content:
  assumes "context2d c"
    and "unat (width c) * unat (height c) + unat (width c) < 2 ^ 53" "unat (height c) \<le> 2 ^ 31"
    and "tightBounds (bitmap c) l t r b"
  shows "trimCanvasToContent c padding =
    Inr \<lparr>width = word_of_int (min (uint (width c) - 1) (r + int padding) - max 0 (l - int padding) + 1),
     height = word_of_int (min (uint (height c) - 1) (b + int padding) - max 0 (t - int padding) + 1),
     data = drawImage (bitmap c)
              (nat (max 0 (l - int padding))) (nat (max 0 (t - int padding)))
              (nat (min (uint (width c) - 1) (r + int padding) - max 0 (l - int padding) + 1))
              (nat (min (uint (height c) - 1) (b + int padding) - max 0 (t - int padding) + 1)),
     context2d = True\<rparr>"
proof -
  from assms(4) obtain x y where "content (bitmap c) x y"
    unfolding tightBounds_def by blast
  then have "width c \<noteq> 0 \<and> height c \<noteq> 0" by (rule content_size)
  then have "getImageData c = Inr (bitmap c)" by (simp add: getImageData_def)
  with assms(1) findBounds_tight [OF assms(2,3,4)] show ?thesis
    by (simp add: trimCanvasToContent_def Let_def)
qed

lemma length_concat_rows:
  assumes "\<forall>j<n. length (f j) = m"
  shows "length (concat (map f [0..<n])) = n * m"
  using assms by (induction n) simp_all

lemma nth_concat_rows:
  assumes "\<forall>j<n. length (f j) = m" "j < n" "i < m"
  shows "concat (map f [0..<n]) ! (j * m + i) = f j ! i"
  using assms
proof (induction n)
  case 0
  then show ?case by simp
next
  case (Suc n)
  have len: "length (concat (map f [0..<n])) = n * m"
    using Suc.prems(1) by (intro length_concat_rows) simp
  show ?case
  proof (cases "j < n")
    case True
    have "j * m + i < j * m + m" using Suc.prems(3) by simp
    also have "\<dots> = Suc j * m" by simp
    also have "\<dots> \<le> n * m" using True by (intro mult_le_mono1) simp
    finally have "j * m + i < n * m" .
    with Suc True show ?thesis by (simp add: nth_append len)
  next
    case False
    with Suc.prems(2) have "j = n" by simp
    then show ?thesis by (simp add: nth_append len)
  qed
qed

text \<open>A pixel of the region that \<open>drawImage\<close> copies is the source pixel it came from.\<close>

lemma drawImage_pixel:
  assumes len: "length (data src) = unat (width src) * unat (height src) * 4"
    and inside: "sx + sw \<le> unat (width src)" "sy + sh \<le> unat (height src)"
    and p: "px < sw" "py < sh" "ch < 4"
  shows "drawImage src sx sy sw sh ! ((py * sw + px) * 4 + ch)
           = data src ! (((sy + py) * unat (width src) + (sx + px)) * 4 + ch)"
proof -
  define w where "w = unat (width src)"
  define h where "h = unat (height src)"
  define f where "f = (\<lambda>j. take (4 * sw) (drop (((sy + j) * w + sx) * 4) (data src)))"
  have row: "length (f j) = 4 * sw" if "j < sh" for j
  proof -
    have "sy + j < h" using that inside(2) by (simp add: h_def)
    then have "(sy + j) * w + w \<le> h * w"
      using mult_le_mono1 [of "Suc (sy + j)" h w] by simp
    then have "((sy + j) * w + sx) * 4 + 4 * sw \<le> w * h * 4"
      using inside(1) by (simp add: w_def [symmetric] mult.commute)
    then show ?thesis by (simp add: f_def len w_def [symmetric] h_def [symmetric])
  qed
  have i: "(py * sw + px) * 4 + ch = py * (4 * sw) + (px * 4 + ch)" by (simp add: algebra_simps)
  have j: "px * 4 + ch < 4 * sw" using p(1,3) by simp
  have "drawImage src sx sy sw sh ! ((py * sw + px) * 4 + ch) = f py ! (px * 4 + ch)"
    unfolding drawImage_def w_def [symmetric] f_def [symmetric] i
    using row p(2) j by (intro nth_concat_rows) simp_all
  also have "\<dots> = data src ! (((sy + py) * w + sx) * 4 + (px * 4 + ch))"
    using j row [OF p(2)] by (simp add: f_def)
  finally show ?thesis by (simp add: w_def algebra_simps)
qed

lemma pixel_index_eq:
  fixes x y w :: nat
  assumes "x < w"
  shows "(y * w + x) * 4 + 3 = k * 4 + 3 \<longleftrightarrow> x = k mod w \<and> y = k div w"
proof
  assume "(y * w + x) * 4 + 3 = k * 4 + 3"
  then have "k = y * w + x" by simp
  with assms show "x = k mod w \<and> y = k div w" by simp
next
  assume "x = k mod w \<and> y = k div w"
  then show "(y * w + x) * 4 + 3 = k * 4 + 3" by simp
qed

lemma length_blank [simp]: "length (blank n) = n"
  by (simp add: blank_def)

lemma nth_blank [simp]: "i < n \<Longrightarrow> blank n ! i = 0"
  by (simp add: blank_def)

lemma bitmap_exact:
  assumes "length (data c) = unat (width c) * unat (height c) * 4"
  shows "data (bitmap c) = data c"
  using assms by (simp add: bitmap_def Let_def)

lemma twoDots_content:
  "content (bitmap twoDots) x y \<longleftrightarrow> (x = 10 \<and> y = 10) \<or> (x = 20 \<and> y = 20)"
proof -
  have d: "data (bitmap twoDots) = (blank 40000)[4043 := 255, 8083 := 255]"
    by (subst bitmap_exact) (simp_all add: twoDots_def)
  have w: "width (bitmap twoDots) = 100" "height (bitmap twoDots) = 100"
      "width twoDots = 100" "height twoDots = 100"
    by (simp_all add: twoDots_def)
  show ?thesis
  proof (cases "x < 100 \<and> y < 100")
    case False
    then show ?thesis by (auto simp: content_def w)
  next
    case True
    then have i: "(y * 100 + x) * 4 + 3 < 40000" by simp
    have "alphaAt (bitmap twoDots) x y =
        Some (if (y * 100 + x) * 4 + 3 = 8083 then 255
              else if (y * 100 + x) * 4 + 3 = 4043 then 255 else 0)"
      using i unfolding alphaAt_def w d
      by (simp only: lookup_nat) (simp add: nth_list_update)
    moreover have "(y * 100 + x) * 4 + 3 = 8083 \<longleftrightarrow> x = 20 \<and> y = 20"
      using True pixel_index_eq [of x 100 y 2020] by simp
    moreover have "(y * 100 + x) * 4 + 3 = 4043 \<longleftrightarrow> x = 10 \<and> y = 10"
      using True pixel_index_eq [of x 100 y 1010] by simp
    ultimately show ?thesis using True by (auto simp: content_def w)
  qed
qed

lemma twoDots_tight: "tightBounds (bitmap twoDots) 10 10 20 20"
  unfolding tightBounds_def twoDots_content by auto

lemma trim_100:
  assumes c: "width c = 100" "height c = 100" "context2d c"
    and tight: "tightBounds (bitmap c) l t r b"
  shows "trimCanvasToContent c padding =
    Inr \<lparr>width = word_of_int (min 99 (r + int padding) - max 0 (l - int padding) + 1),
     height = word_of_int (min 99 (b + int padding) - max 0 (t - int padding) + 1),
     data = drawImage (bitmap c)
              (nat (max 0 (l - int padding))) (nat (max 0 (t - int padding)))
              (nat (min 99 (r + int padding) - max 0 (l - int padding) + 1))
              (nat (min 99 (b + int padding) - max 0 (t - int padding) + 1)),
     context2d = True\<rparr>"
proof -
  have "unat (width c) * unat (height c) + unat (width c) < 2 ^ 53" "unat (height c) \<le> 2 ^ 31"
    by (simp_all add: c)
  from trim_content [OF c(3) this tight, of padding] show ?thesis by (simp add: c)
qed

lemma trim_100_pad2:
  assumes c: "width c = 100" "height c = 100" "context2d c"
    and tight: "tightBounds (bitmap c) 10 10 20 20"
  shows "trimCanvasToContent c 2 =
    Inr \<lparr>width = 15, height = 15, data = drawImage (bitmap c) 8 8 15 15, context2d = True\<rparr>"
  using trim_100 [OF c tight, of 2] by simp

text \<open>
  C3 (amended). With padding 2, a 100x100 raster whose content has the tight bounds
  left 10, top 10, right 20, bottom 20 is trimmed to a raster of 15x15 pixels (not 13x13),
  whose pixel (px, py) is the source pixel (8 + px, 8 + py). For any bounds and padding the
  box is widened by the padding and clamped to the raster: left and top not below 0, right
  and bottom not above 99.
\<close>

theorem C3_trim_is_15_by_15:
  assumes "width c = 100" "height c = 100" "context2d c"
  shows "(tightBounds (bitmap c) 10 10 20 20 \<longrightarrow>
            (\<exists>trimmed. trimCanvasToContent c 2 = Inr trimmed \<and>
               width trimmed = 15 \<and>
               height trimmed = 15 \<and>
               (\<forall>px<15. \<forall>py<15. \<forall>ch<4.
                  data trimmed ! ((py * 15 + px) * 4 + ch)
                    = data (bitmap c) ! (((8 + py) * 100 + (8 + px)) * 4 + ch)))) \<and>
         (\<forall>l t r b padding. tightBounds (bitmap c) l t r b \<longrightarrow>
            trimCanvasToContent c padding =
              Inr \<lparr>width = word_of_int (min 99 (r + int padding) - max 0 (l - int padding) + 1),
               height = word_of_int (min 99 (b + int padding) - max 0 (t - int padding) + 1),
               data = drawImage (bitmap c)
                        (nat (max 0 (l - int padding))) (nat (max 0 (t - int padding)))
                        (nat (min 99 (r + int padding) - max 0 (l - int padding) + 1))
                        (nat (min 99 (b + int padding) - max 0 (t - int padding) + 1)),
               context2d = True\<rparr>)"
proof (intro conjI allI impI)
  assume tight: "tightBounds (bitmap c) 10 10 20 20"
  define trimmed :: canvas where
    "trimmed = \<lparr>width = 15, height = 15, data = drawImage (bitmap c) 8 8 15 15, context2d = True\<rparr>"
  have eq: "trimCanvasToContent c 2 = Inr trimmed"
    unfolding trimmed_def by (rule trim_100_pad2 [OF assms tight])
  have len: "length (data (bitmap c))
      = unat (width (bitmap c)) * unat (height (bitmap c)) * 4"
    by simp
  have px: "data trimmed ! ((py * 15 + px) * 4 + ch)
                 = data (bitmap c) ! (((8 + py) * 100 + (8 + px)) * 4 + ch)"
    if p: "px < 15" "py < 15" "ch < 4" for px py ch :: nat
  proof -
    have "drawImage (bitmap c) 8 8 15 15 ! ((py * 15 + px) * 4 + ch)
        = data (bitmap c) ! (((8 + py) * unat (width (bitmap c)) + (8 + px)) * 4 + ch)"
      using p by (intro drawImage_pixel [OF len]) (simp_all add: assms)
    then show ?thesis by (simp add: trimmed_def assms)
  qed
  have "width trimmed = 15" "height trimmed = 15" by (simp_all add: trimmed_def)
  with eq px show "\<exists>trimmed. trimCanvasToContent c 2 = Inr trimmed \<and>
               width trimmed = 15 \<and>
               height trimmed = 15 \<and>
               (\<forall>px<15. \<forall>py<15. \<forall>ch<4.
                  data trimmed ! ((py * 15 + px) * 4 + ch)
                    = data (bitmap c) ! (((8 + py) * 100 + (8 + px)) * 4 + ch))"
    by blast
next
  fix l t r b padding
  assume "tightBounds (bitmap c) l t r b"
  from trim_100 [OF assms this]
  show "trimCanvasToContent c padding =
              Inr \<lparr>width = word_of_int (min 99 (r + int padding) - max 0 (l - int padding) + 1),
               height = word_of_int (min 99 (b + int padding) - max 0 (t - int padding) + 1),
               data = drawImage (bitmap c)
                        (nat (max 0 (l - int padding))) (nat (max 0 (t - int padding)))
                        (nat (min 99 (r + int padding) - max 0 (l - int padding) + 1))
                        (nat (min 99 (b + int padding) - max 0 (t - int padding) + 1)),
               context2d = True\<rparr>" .
qed

text \<open>The raster \<open>twoDots\<close>: opaque at (10, 10) and (20, 20) only. Its trim is 15x15.\<close>

theorem C3_witness:
  "width twoDots = 100 \<and> height twoDots = 100 \<and> context2d twoDots \<and>
   tightBounds (bitmap twoDots) 10 10 20 20 \<and>
   (\<exists>trimmed. trimCanvasToContent twoDots 2 = Inr trimmed \<and>
      width trimmed = 15 \<and>
      height trimmed = 15 \<and>
      data trimmed ! ((2 * 15 + 2) * 4 + 3)
        = data (bitmap twoDots) ! (((8 + 2) * 100 + (8 + 2)) * 4 + 3))"
proof -
  have c: "width twoDots = 100" "height twoDots = 100" "context2d twoDots"
    by (simp_all add: twoDots_def)
  from C3_trim_is_15_by_15 [OF c] twoDots_tight
  obtain trimmed where t: "trimCanvasToContent twoDots 2 = Inr trimmed"
      "width trimmed = 15" "height trimmed = 15"
      "\<forall>px<15. \<forall>py<15. \<forall>ch<4.
           data trimmed ! ((py * 15 + px) * 4 + ch)
             = data (bitmap twoDots) ! (((8 + py) * 100 + (8 + px)) * 4 + ch)"
    by blast
  from t(4) [rule_format, of 2 2 3]
  have "data trimmed ! ((2 * 15 + 2) * 4 + 3)
       = data (bitmap twoDots) ! (((8 + 2) * 100 + (8 + 2)) * 4 + 3)"
    by simp
  with t(1,2,3) c twoDots_tight show ?thesis by blast
qed

text \<open>The claim's 13x13 fails on \<open>twoDots\<close>.\<close>

theorem C3_counterexample:
  "width twoDots = 100 \<and> height twoDots = 100 \<and>
   tightBounds (bitmap twoDots) 10 10 20 20 \<and>
   \<not> (\<exists>trimmed. trimCanvasToContent twoDots 2 = Inr trimmed \<and>
          width trimmed = 13 \<and> height trimmed = 13)"
proof -
  have c: "width twoDots = 100" "height twoDots = 100" "context2d twoDots"
    by (simp_all add: twoDots_def)
  from trim_100_pad2 [OF c twoDots_tight]
  have "\<not> (\<exists>trimmed. trimCanvasToContent twoDots 2 = Inr trimmed \<and>
          width trimmed = 13 \<and> height trimmed = 13)"
    by simp
  with c twoDots_tight show ?thesis by simp
qed

lemma zero_data_no_content:
  assumes "\<forall>i<length (data r). data r ! i = 0"
  shows "\<not> content r x y"
proof
  assume "content r x y"
  then obtain a where a: "alphaAt r x y = Some a" "a \<noteq> 0" by (auto simp: content_def)
  define n where "n = (y * unat (width r) + x) * 4"
  from a(1) have "(if n + 3 < length (data r) then Some (data r ! (n + 3)) else None) = Some a"
    unfolding alphaAt_def n_def [symmetric] by (simp only: lookup_nat)
  then have "n + 3 < length (data r)" "a = data r ! (n + 3)" by (simp_all split: if_splits)
  with assms a(2) show False by simp
qed




lemma oneDot_content: "content oneDot x y \<longleftrightarrow> x = 5 \<and> y = 5"
proof (cases "x < 10 \<and> y < 10")
  case False
  then show ?thesis by (auto simp: content_def oneDot_def)
next
  case True
  then have i: "(y * 10 + x) * 4 + 3 < 400" by simp
  have "alphaAt oneDot x y = Some (if (y * 10 + x) * 4 + 3 = 223 then 255 else 0)"
    using i unfolding alphaAt_def
    by (simp only: lookup_nat) (simp add: oneDot_def nth_list_update)
  moreover have "(y * 10 + x) * 4 + 3 = 223 \<longleftrightarrow> x = 5 \<and> y = 5"
    using True pixel_index_eq [of x 10 y 55] by simp
  ultimately show ?thesis using True by (auto simp: content_def oneDot_def)
qed

text \<open>The masks \<open>oneDot\<close> and \<open>transparent100\<close>.\<close>

theorem C5_witness:
  "width oneDot = 10 \<and> height oneDot = 10 \<and> content oneDot 5 5 \<and>
   getMaskBounds oneDot = Some \<lparr>mb_left = 5, mb_top = 5, mb_right = 5, mb_bottom = 5,
                                 mb_width = 1, mb_height = 1\<rparr> \<and>
   tightBounds oneDot 5 5 5 5 \<and>
   \<not> content transparent100 5 5 \<and>
   getMaskBounds transparent100 = None"
proof -
  have d: "width oneDot = 10" "height oneDot = 10" by (simp_all add: oneDot_def)
  have c: "\<forall>x y. content oneDot x y \<longleftrightarrow> x = 5 \<and> y = 5" by (simp add: oneDot_content)
  from C5_getMaskBounds_tight [of oneDot] d c
  have g: "getMaskBounds oneDot = Some \<lparr>mb_left = 5, mb_top = 5, mb_right = 5, mb_bottom = 5,
                                 mb_width = 1, mb_height = 1\<rparr>"
    by blast
  from C5_getMaskBounds_tight [of oneDot]
  have "\<forall>b. getMaskBounds oneDot = Some b \<longrightarrow>
      tightBounds oneDot (mb_left b) (mb_top b) (mb_right b) (mb_bottom b)"
    by blast
  from this [rule_format, OF g] have t: "tightBounds oneDot 5 5 5 5" by simp
  have n: "\<not> (\<exists>x y. content transparent100 x y)"
    using zero_data_no_content [of transparent100] by (simp add: transparent100_def)
  with C5_getMaskBounds_tight [of transparent100]
  have z: "getMaskBounds transparent100 = None" by blast
  from d c g t n z show ?thesis by blast
qed

lemma fold_update_nth:
  assumes len: "\<And>k d. length (F k d) = length d"
    and nth: "\<And>k d j. j < length d \<Longrightarrow> F k d ! j = (if P k j then v else d ! j)"
  shows "length (fold F ks d) = length d \<and>
         (j < length d \<longrightarrow> fold F ks d ! j = (if \<exists>k \<in> set ks. P k j then v else d ! j))"
proof (induction ks arbitrary: d)
  case Nil
  show ?case by simp
next
  case (Cons k ks)
  from Cons [of "F k d"] show ?case by (auto simp: len nth)
qed

lemma length_maskPixel [simp]: "length (maskPixel img msk y x d) = length d"
  by (simp add: maskPixel_def Let_def)

lemma nth_maskPixel:
  "j < length d \<Longrightarrow>
   maskPixel img msk y x d ! j =
     (if lookup (data msk) (maskIdx img msk x y + 3) = Some 0
         \<and> j = (y * unat (width img) + x) * 4 + 3 then 0 else d ! j)"
  by (simp add: maskPixel_def Let_def nth_list_update)

lemma maskRow:
  "length (fold (maskPixel img msk y) xs d) = length d \<and>
   (j < length d \<longrightarrow>
      fold (maskPixel img msk y) xs d ! j =
        (if \<exists>x \<in> set xs. lookup (data msk) (maskIdx img msk x y + 3) = Some 0
               \<and> j = (y * unat (width img) + x) * 4 + 3
         then 0 else d ! j))"
  by (rule fold_update_nth) (simp_all add: nth_maskPixel)

lemma maskRows:
  "length (fold (\<lambda>y. fold (maskPixel img msk y) xs) ys d) = length d \<and>
   (j < length d \<longrightarrow>
      fold (\<lambda>y. fold (maskPixel img msk y) xs) ys d ! j =
        (if \<exists>y \<in> set ys. \<exists>x \<in> set xs. lookup (data msk) (maskIdx img msk x y + 3) = Some 0
               \<and> j = (y * unat (width img) + x) * 4 + 3
         then 0 else d ! j))"
  by (rule fold_update_nth) (simp_all add: maskRow)

lemma pixel_index_inj:
  fixes x y x' y' w :: nat
  assumes "x < w" "x' < w" "(y * w + x) * 4 + 3 = (y' * w + x') * 4 + 3"
  shows "x' = x \<and> y' = y"
proof -
  from assms(3) have e: "y * w + x = y' * w + x'" by simp
  from e have "(y * w + x) mod w = (y' * w + x') mod w" by simp
  with assms(1,2) have "x = x'" by simp
  moreover from e have "(y * w + x) div w = (y' * w + x') div w" by simp
  with assms(1,2) have "y = y'" by simp
  ultimately show ?thesis by simp
qed

text \<open>What the pixel loop of \<open>applyMaskToImage\<close> leaves at a destination pixel.\<close>

lemma maskPixels_pixel:
  fixes img msk :: imageData and x y :: nat
  assumes x: "x < unat (width img)" and y: "y < unat (height img)"
    and len: "length src = unat (width img) * unat (height img) * 4"
  defines "i \<equiv> (y * unat (width img) + x) * 4"
  defines "out \<equiv> maskPixels img msk src"
  shows "out ! (i + 3) =
           (if lookup (data msk) (maskIdx img msk x y + 3) = Some 0 then 0 else src ! (i + 3))"
    and "ch < 3 \<Longrightarrow> out ! (i + ch) = src ! (i + ch)"
    and "length out = length src"
    and "i + 3 < length src"
proof -
  define w where "w = unat (width img)"
  define h where "h = unat (height img)"
  have len: "length src = w * h * 4"
    by (simp add: len w_def h_def)
  have o: "out = fold (\<lambda>y. fold (maskPixel img msk y) [0..<w]) [0..<h] src"
    by (simp add: out_def maskPixels_def w_def h_def)
  have "y * w + x < w * h" using x y by (simp add: index_less w_def h_def)
  then have il: "i + 3 < length src" by (simp add: len i_def w_def)
  then show "i + 3 < length src" .
  note rows = maskRows [of img msk "[0..<w]" "[0..<h]" src]
  from rows show "length out = length src" unfolding o by blast
  have "out ! (i + 3) =
      (if \<exists>y' \<in> set [0..<h]. \<exists>x' \<in> set [0..<w].
            lookup (data msk) (maskIdx img msk x' y' + 3) = Some 0
            \<and> i + 3 = (y' * unat (width img) + x') * 4 + 3
       then 0 else src ! (i + 3))"
    unfolding o using rows [of "i + 3"] il by blast
  moreover have "(\<exists>y' \<in> set [0..<h]. \<exists>x' \<in> set [0..<w].
            lookup (data msk) (maskIdx img msk x' y' + 3) = Some 0
            \<and> i + 3 = (y' * unat (width img) + x') * 4 + 3)
       \<longleftrightarrow> lookup (data msk) (maskIdx img msk x y + 3) = Some 0"
  proof
    assume "\<exists>y' \<in> set [0..<h]. \<exists>x' \<in> set [0..<w].
            lookup (data msk) (maskIdx img msk x' y' + 3) = Some 0
            \<and> i + 3 = (y' * unat (width img) + x') * 4 + 3"
    then obtain x' y' where
      p: "x' < w" "lookup (data msk) (maskIdx img msk x' y' + 3) = Some 0"
         "(y * w + x) * 4 + 3 = (y' * w + x') * 4 + 3"
      by (auto simp: i_def w_def)
    from pixel_index_inj [OF _ p(1,3)] x have "x' = x \<and> y' = y" by (simp add: w_def)
    with p(2) show "lookup (data msk) (maskIdx img msk x y + 3) = Some 0" by simp
  next
    assume "lookup (data msk) (maskIdx img msk x y + 3) = Some 0"
    moreover have "y \<in> set [0..<h]" "x \<in> set [0..<w]" using x y by (simp_all add: w_def h_def)
    moreover have "i + 3 = (y * unat (width img) + x) * 4 + 3" by (simp add: i_def)
    ultimately show "\<exists>y' \<in> set [0..<h]. \<exists>x' \<in> set [0..<w].
            lookup (data msk) (maskIdx img msk x' y' + 3) = Some 0
            \<and> i + 3 = (y' * unat (width img) + x') * 4 + 3"
      by blast
  qed
  ultimately show "out ! (i + 3) =
           (if lookup (data msk) (maskIdx img msk x y + 3) = Some 0 then 0 else src ! (i + 3))"
    by simp
  assume ch: "ch < 3"
  have ne: "a * 4 + ch \<noteq> b * 4 + 3" for a b :: nat
    using ch by presburger
  have "i + ch \<noteq> (y' * unat (width img) + x') * 4 + 3" for x' y'
    unfolding i_def by (rule ne)
  moreover have "i + ch < length src" using il ch by simp
  ultimately show "out ! (i + ch) = src ! (i + ch)"
    unfolding o using rows [of "i + ch"] by simp
qed

lemma length_putImageData [simp]: "length (putImageData requantize d) = length d"
  by (simp add: putImageData_def)

text \<open>What reads back from a pixel after \<open>putImageData\<close>.\<close>

lemma putImageData_pixel:
  assumes "k * 4 + 3 < length d" "ch < 4"
  shows "putImageData requantize d ! (k * 4 + ch) =
           (if ch = 3 then d ! (k * 4 + 3)
            else if d ! (k * 4 + 3) = 0 then 0
            else if d ! (k * 4 + 3) = 255 then d ! (k * 4 + ch)
            else requantize (d ! (k * 4 + ch)) (d ! (k * 4 + 3)))"
proof -
  have l: "k * 4 + ch < length d" using assms by simp
  have dv: "(k * 4 + ch) div 4 = k" and md: "(k * 4 + ch) mod 4 = ch"
    using assms(2) by simp_all
  have c3: "ch mod 4 = 3 \<longleftrightarrow> ch = 3" using assms(2) by simp
  have "putImageData requantize d ! (k * 4 + ch) =
      (let a = d ! (4 * ((k * 4 + ch) div 4) + 3)
       in if (k * 4 + ch) mod 4 = 3 then a
          else if a = 0 then 0
          else if a = 255 then d ! (k * 4 + ch)
          else requantize (d ! (k * 4 + ch)) a)"
    unfolding putImageData_def using l by (simp only: nth_map_upt add_0 minus_nat.diff_0)
  then show ?thesis
    unfolding dv md by (simp add: Let_def mult.commute)
qed

text \<open>The canvas that \<open>applyMaskToImage\<close> returns when it is not asked to trim.\<close>

lemma applyMask_canvas:
  assumes r: "raster image' = img" and w: "width img \<noteq> 0" and h: "height img \<noteq> 0"
  shows "getImageData (canvasOf img) = Inr (bitmap (canvasOf img))"
    and "applyMaskToImage requantize image' msk False padding =
           Inr \<lparr>width = width img, height = height img,
                data = putImageData requantize
                         (maskPixels img msk (data (bitmap (canvasOf img)))),
                context2d = True\<rparr>"
proof -
  show g: "getImageData (canvasOf img) = Inr (bitmap (canvasOf img))"
    using w h by (simp add: getImageData_def canvasOf_def)
  have d: "drawElement image' = Inr (canvasOf img)"
  proof (cases image')
    case (HTMLImageElement i)
    with r show ?thesis by (simp add: drawElement_def)
  next
    case (HTMLCanvasElement c)
    with r have "img = bitmap c" by simp
    moreover from this w h have "width c \<noteq> 0" "height c \<noteq> 0" by (simp_all add: bitmap_def Let_def)
    ultimately show ?thesis using HTMLCanvasElement by (simp add: drawElement_def)
  qed
  show "applyMaskToImage requantize image' msk False padding =
           Inr \<lparr>width = width img, height = height img,
                data = putImageData requantize
                         (maskPixels img msk (data (bitmap (canvasOf img)))),
                context2d = True\<rparr>"
  proof -
    have "applyMaskToImage requantize image' msk False padding =
        Inr ((canvasOf img)\<lparr>data := putImageData requantize
                                   (maskPixels img msk (data (bitmap (canvasOf img))))\<rparr>)"
      by (simp add: applyMaskToImage_def d g r Let_def)
    then show ?thesis by (simp add: canvasOf_def)
  qed
qed

lemma unat_u32_le: "unat (w :: u32) \<le> 2 ^ 32"
  using unsigned_less [of w, where ?'a = nat] by simp

text \<open>The mask coordinates that \<open>maskIdx\<close> computes lie inside the mask.\<close>

lemma maskX_range:
  assumes "x < iw" "iw \<le> 2 ^ 32" "1 \<le> mw"
  shows "0 \<le> \<lfloor>fl (of_nat x * fl (of_nat mw / of_nat iw))\<rfloor> \<and>
         \<lfloor>fl (of_nat x * fl (of_nat mw / of_nat iw))\<rfloor> \<le> int mw - 1"
  using floor_fl_scale_nonneg [of x mw iw] floor_fl_scale_less [of x iw mw] assms by simp

lemma maskIdx_range:
  assumes x: "x < unat (width img)" and y: "y < unat (height img)"
    and m: "1 \<le> unat (width msk)" "1 \<le> unat (height msk)"
  shows "0 \<le> maskIdx img msk x y \<and>
         maskIdx img msk x y + 3 < int (unat (width msk) * unat (height msk) * 4)"
proof -
  define iw where "iw = unat (width img)"
  define ih where "ih = unat (height img)"
  define mw where "mw = unat (width msk)"
  define mh where "mh = unat (height msk)"
  define maskX where "maskX = \<lfloor>fl (of_nat x * fl (of_nat mw / of_nat iw))\<rfloor>"
  define maskY where "maskY = \<lfloor>fl (of_nat y * fl (of_nat mh / of_nat ih))\<rfloor>"
  have idx: "maskIdx img msk x y = (maskY * int mw + maskX) * 4"
    unfolding maskIdx_def Let_def maskX_def maskY_def iw_def ih_def mw_def mh_def ..
  have X: "0 \<le> maskX" "maskX \<le> int mw - 1"
    unfolding maskX_def
    using maskX_range [of x iw mw] x m(1) unat_u32_le [of "width img"]
    by (simp_all add: iw_def mw_def del: of_nat_unat)
  have Y: "0 \<le> maskY" "maskY \<le> int mh - 1"
    unfolding maskY_def
    using maskX_range [of y ih mh] y m(2) unat_u32_le [of "height img"]
    by (simp_all add: ih_def mh_def del: of_nat_unat)
  have "maskY * int mw \<le> (int mh - 1) * int mw"
    using Y(2) by (intro mult_right_mono) simp_all
  then have "maskY * int mw + maskX \<le> int mh * int mw - 1"
    using X(2) by (simp add: algebra_simps)
  then have "(maskY * int mw + maskX) * 4 + 3 < int mw * int mh * 4" by (simp add: algebra_simps)
  moreover have "0 \<le> maskY * int mw" using Y(1) by simp
  ultimately show ?thesis
    unfolding idx using X(1) by (simp add: mw_def mh_def del: of_nat_unat)
qed

text \<open>
  C10. If the image and the mask have at least one pixel each and the mask's data has
  \<open>width * height * 4\<close> bytes, then for every pixel (x, y) of the image the mask coordinates
  are at most \<open>mask.width - 1\<close> and \<open>mask.height - 1\<close>, and the index of the byte that
  \<open>applyMaskToImage\<close> reads in the mask's data is in range: \<open>maskIdx + 3 < mask.data.length\<close>.
\<close>

theorem C10_mask_index_in_range:
  assumes "1 \<le> unat (width img)" "1 \<le> unat (height img)"
    and "1 \<le> unat (width msk)" "1 \<le> unat (height msk)"
    and "length (data msk) = unat (width msk) * unat (height msk) * 4"
    and "x < unat (width img)" "y < unat (height img)"
  shows "\<lfloor>fl (of_nat x * fl (of_nat (unat (width msk)) / of_nat (unat (width img))))\<rfloor>
           \<le> int (unat (width msk)) - 1 \<and>
         \<lfloor>fl (of_nat y * fl (of_nat (unat (height msk)) / of_nat (unat (height img))))\<rfloor>
           \<le> int (unat (height msk)) - 1 \<and>
         0 \<le> maskIdx img msk x y \<and>
         maskIdx img msk x y + 3 < int (length (data msk)) \<and>
         lookup (data msk) (maskIdx img msk x y + 3)
           = Some (data msk ! nat (maskIdx img msk x y + 3))"
proof -
  from maskIdx_range [OF assms(6,7,3,4)] assms(5)
  have r: "0 \<le> maskIdx img msk x y" "maskIdx img msk x y + 3 < int (length (data msk))"
    by simp_all
  then have l: "lookup (data msk) (maskIdx img msk x y + 3)
           = Some (data msk ! nat (maskIdx img msk x y + 3))"
    by (simp add: lookup_def)
  have X: "\<lfloor>fl (of_nat x * fl (of_nat (unat (width msk)) / of_nat (unat (width img))))\<rfloor>
           \<le> int (unat (width msk)) - 1"
    using maskX_range [OF assms(6) unat_u32_le assms(3)] by blast
  have Y: "\<lfloor>fl (of_nat y * fl (of_nat (unat (height msk)) / of_nat (unat (height img))))\<rfloor>
           \<le> int (unat (height msk)) - 1"
    using maskX_range [OF assms(7) unat_u32_le assms(4)] by blast
  from X Y r l show ?thesis by blast
qed

lemma img98_dims: "unat (width img98) = 98" "unat (height img98) = 1"
  by (simp_all add: img98_def)

lemma mask2_dims: "unat (width mask2) = 2" "unat (height mask2) = 1" "length (data mask2) = 8"
  by (simp_all add: mask2_def)

lemma img98_src:
  assumes "k < 98" "ch < 4"
  shows "data (bitmap (canvasOf img98)) ! (k * 4 + ch) = [10, 20, 30, 255] ! ch"
proof -
  have l: "length (data img98) = 98 * 4"
    unfolding img98_def by (simp add: length_concat_rows [where m = 4])
  have "data (bitmap (canvasOf img98)) = data img98"
    by (subst bitmap_exact) (simp_all add: canvasOf_def l img98_dims)
  moreover have "data img98 ! (k * 4 + ch) = [10, 20, 30, 255] ! ch"
    unfolding img98_def using assms by (simp add: nth_concat_rows [where m = 4])
  ultimately show ?thesis by simp
qed

lemma maskIdx_49: "maskIdx img98 mask2 49 0 = 0"
  by code_simp

lemma maskIdx_50: "maskIdx img98 mask2 50 0 = 4"
  by code_simp

text \<open>The last pixel of the image of 98 pixels, on the mask of 2 pixels.\<close>

theorem C10_witness:
  "1 \<le> unat (width img98) \<and> 1 \<le> unat (height img98) \<and>
   1 \<le> unat (width mask2) \<and> 1 \<le> unat (height mask2) \<and>
   length (data mask2) = unat (width mask2) * unat (height mask2) * 4 \<and>
   97 < unat (width img98) \<and> 0 < unat (height img98) \<and>
   maskIdx img98 mask2 97 0 + 3 < int (length (data mask2))"
proof -
  have h: "1 \<le> unat (width img98)" "1 \<le> unat (height img98)"
    "1 \<le> unat (width mask2)" "1 \<le> unat (height mask2)"
    "length (data mask2) = unat (width mask2) * unat (height mask2) * 4"
    "97 < unat (width img98)" "0 < unat (height img98)"
    by (simp_all add: img98_dims mask2_dims)
  from C10_mask_index_in_range [OF h] h show ?thesis by blast
qed

lemma maskIdx_same_size:
  assumes "x < unat (width img)" "y < unat (height img)"
    and "width msk = width img" "height msk = height img"
  shows "maskIdx img msk x y = int ((y * unat (width img) + x) * 4)"
proof -
  define w where "w = unat (width img)"
  define h where "h = unat (height img)"
  have w: "0 < w" "x < 2 ^ 53" and h: "0 < h" "y < 2 ^ 53"
    using assms(1,2) unat_u32_le [of "width img"] unat_u32_le [of "height img"]
    by (simp_all add: w_def h_def)
  have "fl (of_nat w / of_nat w) = 1" "fl (of_nat h / of_nat h) = 1"
    using w(1) h(1) fl_of_nat [of 1] by simp_all
  then have "\<lfloor>fl (of_nat x * fl (of_nat w / of_nat w))\<rfloor> = int x"
    "\<lfloor>fl (of_nat y * fl (of_nat h / of_nat h))\<rfloor> = int y"
    using w(2) h(2) by (simp_all add: fl_of_nat)
  then show ?thesis
    unfolding maskIdx_def Let_def assms(3,4) w_def [symmetric] h_def [symmetric]
    by simp
qed

text \<open>
  C4 (amended). For every destination pixel (x, y), \<open>applyMaskToImage\<close> (not asked to
  trim) returns a canvas of the image's size, and consults the mask pixel (maskX, maskY)
  with \<open>maskX = floor (x * scaleX)\<close> and \<open>maskY = floor (y * scaleY)\<close>, where the scale
  factors \<open>mask.width / image.width\<close> and \<open>mask.height / image.height\<close> are computed first
  and every quotient and product is rounded to a double; it is the pixel (x, y) itself
  when mask and image have the same size. If the alpha byte of that mask pixel is exactly
  0, then in the \<^verbatim>\<open>ImageData\<close> that is written back the alpha of the destination pixel
  is 0 and its three colour bytes are those of the source, and the pixel of the returned
  canvas reads back as transparent black: all four bytes are 0. Otherwise all four bytes of
  the \<^verbatim>\<open>ImageData\<close> are those of the source, the pixel of the returned canvas has the
  alpha of the source, and all the bytes of the source if that alpha is 255.
\<close>

theorem C4_binary_cutout:
  assumes "raster image' = img" "x < unat (width img)" "y < unat (height img)"
  shows
    "maskIdx img msk x y =
       (\<lfloor>fl (of_nat y * fl (of_nat (unat (height msk)) / of_nat (unat (height img))))\<rfloor>
          * int (unat (width msk))
        + \<lfloor>fl (of_nat x * fl (of_nat (unat (width msk)) / of_nat (unat (width img))))\<rfloor>) * 4 \<and>
     (width msk = width img \<and> height msk = height img \<longrightarrow>
        maskIdx img msk x y = int ((y * unat (width img) + x) * 4)) \<and>
     (\<exists>src written canvas.
        getImageData (canvasOf img) = Inr src \<and>
        written = maskPixels img msk (data src) \<and>
        applyMaskToImage requantize image' msk False padding = Inr canvas \<and>
        width canvas = width img \<and> height canvas = height img \<and>
        data canvas = putImageData requantize written \<and>
        (lookup (data msk) (maskIdx img msk x y + 3) = Some 0 \<longrightarrow>
           written ! ((y * unat (width img) + x) * 4 + 3) = 0 \<and>
           (\<forall>ch<3. written ! ((y * unat (width img) + x) * 4 + ch)
                     = data src ! ((y * unat (width img) + x) * 4 + ch)) \<and>
           (\<forall>ch<4. data canvas ! ((y * unat (width img) + x) * 4 + ch) = 0)) \<and>
        (lookup (data msk) (maskIdx img msk x y + 3) \<noteq> Some 0 \<longrightarrow>
           (\<forall>ch<4. written ! ((y * unat (width img) + x) * 4 + ch)
                     = data src ! ((y * unat (width img) + x) * 4 + ch)) \<and>
           data canvas ! ((y * unat (width img) + x) * 4 + 3)
             = data src ! ((y * unat (width img) + x) * 4 + 3) \<and>
           (data src ! ((y * unat (width img) + x) * 4 + 3) = 255 \<longrightarrow>
              (\<forall>ch<3. data canvas ! ((y * unat (width img) + x) * 4 + ch)
                        = data src ! ((y * unat (width img) + x) * 4 + ch)))))"
proof -
  define k where "k = y * unat (width img) + x"
  define src where "src = bitmap (canvasOf img)"
  define written where "written = maskPixels img msk (data src)"
  define canvas :: canvas where
    "canvas = \<lparr>width = width img, height = height img,
               data = putImageData requantize written, context2d = True\<rparr>"
  have nz: "width img \<noteq> 0" "height img \<noteq> 0" using assms(2,3) by auto
  have g: "getImageData (canvasOf img) = Inr src"
    unfolding src_def by (rule applyMask_canvas(1) [OF assms(1) nz])
  have r: "applyMaskToImage requantize image' msk False padding = Inr canvas"
    unfolding canvas_def written_def src_def by (rule applyMask_canvas(2) [OF assms(1) nz])
  have len: "length (data src) = unat (width img) * unat (height img) * 4"
    by (simp add: src_def canvasOf_def)
  note mp = maskPixels_pixel(1) [OF assms(2,3) len, of msk, folded written_def k_def]
    maskPixels_pixel(2) [OF assms(2,3) len, of _ msk, folded written_def k_def]
    maskPixels_pixel(3) [OF assms(2,3) len, of msk, folded written_def]
    maskPixels_pixel(4) [OF assms(2,3) len, folded k_def]
  have wl: "k * 4 + 3 < length written" using mp(3,4) by simp
  note pp = putImageData_pixel [OF wl, of _ requantize]
  have c: "data canvas = putImageData requantize written" by (simp add: canvas_def)
  have d: "width canvas = width img" "height canvas = height img" by (simp_all add: canvas_def)
  have m1: "maskIdx img msk x y =
       (\<lfloor>fl (of_nat y * fl (of_nat (unat (height msk)) / of_nat (unat (height img))))\<rfloor>
          * int (unat (width msk))
        + \<lfloor>fl (of_nat x * fl (of_nat (unat (width msk)) / of_nat (unat (width img))))\<rfloor>) * 4"
    unfolding maskIdx_def Let_def ..
  have m2: "width msk = width img \<and> height msk = height img \<longrightarrow>
        maskIdx img msk x y = int (k * 4)"
    using assms(2,3) by (simp add: maskIdx_same_size k_def)
  have z: "written ! (k * 4 + 3) = 0 \<and>
           (\<forall>ch<3. written ! (k * 4 + ch) = data src ! (k * 4 + ch)) \<and>
           (\<forall>ch<4. data canvas ! (k * 4 + ch) = 0)"
    if "lookup (data msk) (maskIdx img msk x y + 3) = Some 0"
  proof -
    from that mp(1) have a: "written ! (k * 4 + 3) = 0" by simp
    have "data canvas ! (k * 4 + ch) = 0" if "ch < 4" for ch
      unfolding c using pp [OF that] a by simp
    with a mp(2) show ?thesis by blast
  qed
  have n: "(\<forall>ch<4. written ! (k * 4 + ch) = data src ! (k * 4 + ch)) \<and>
           data canvas ! (k * 4 + 3) = data src ! (k * 4 + 3) \<and>
           (data src ! (k * 4 + 3) = 255 \<longrightarrow>
              (\<forall>ch<3. data canvas ! (k * 4 + ch) = data src ! (k * 4 + ch)))"
    if "lookup (data msk) (maskIdx img msk x y + 3) \<noteq> Some 0"
  proof -
    from that mp(1) have a: "written ! (k * 4 + 3) = data src ! (k * 4 + 3)" by simp
    have w: "written ! (k * 4 + ch) = data src ! (k * 4 + ch)" if "ch < 4" for ch
    proof (cases "ch = 3")
      case True
      with a show ?thesis by simp
    next
      case False
      with that have "ch < 3" by simp
      then show ?thesis by (rule mp(2))
    qed
    have "data canvas ! (k * 4 + 3) = data src ! (k * 4 + 3)"
      unfolding c using pp [of 3] a by simp
    moreover have "data canvas ! (k * 4 + ch) = data src ! (k * 4 + ch)"
      if "data src ! (k * 4 + 3) = 255" "ch < 3" for ch
    proof -
      from that(2) have "ch < 4" "ch \<noteq> 3" by simp_all
      with pp [of ch] a that(1) w [of ch] show ?thesis unfolding c by simp
    qed
    ultimately show ?thesis using w by blast
  qed
  have "\<exists>src written canvas.
        getImageData (canvasOf img) = Inr src \<and>
        written = maskPixels img msk (data src) \<and>
        applyMaskToImage requantize image' msk False padding = Inr canvas \<and>
        width canvas = width img \<and> height canvas = height img \<and>
        data canvas = putImageData requantize written \<and>
        (lookup (data msk) (maskIdx img msk x y + 3) = Some 0 \<longrightarrow>
           written ! (k * 4 + 3) = 0 \<and>
           (\<forall>ch<3. written ! (k * 4 + ch) = data src ! (k * 4 + ch)) \<and>
           (\<forall>ch<4. data canvas ! (k * 4 + ch) = 0)) \<and>
        (lookup (data msk) (maskIdx img msk x y + 3) \<noteq> Some 0 \<longrightarrow>
           (\<forall>ch<4. written ! (k * 4 + ch) = data src ! (k * 4 + ch)) \<and>
           data canvas ! (k * 4 + 3) = data src ! (k * 4 + 3) \<and>
           (data src ! (k * 4 + 3) = 255 \<longrightarrow>
              (\<forall>ch<3. data canvas ! (k * 4 + ch) = data src ! (k * 4 + ch))))"
    apply (rule exI [of _ src])
    apply (rule exI [of _ written])
    apply (rule exI [of _ canvas])
    apply (intro conjI impI)
    apply (rule g)
    apply (rule written_def)
    apply (rule r)
    apply (rule d(1))
    apply (rule d(2))
    apply (rule c)
    using z n apply blast+
    done
  with m1 m2 show ?thesis unfolding k_def by blast
qed

text \<open>
  An image element of 98x1 opaque pixels and a mask of 2x1 pixels, the first opaque, the
  second transparent. Pixel 50 maps to mask pixel 1 and is cut out: the \<^verbatim>\<open>ImageData\<close>
  written back keeps its blue byte 30, and the returned canvas reads back 0 there. Pixel
  49 maps to mask pixel 0 and stays. With the image itself as the mask, pixel 49 maps to
  pixel 49.
\<close>

theorem C4_witness:
  "raster (HTMLImageElement img98) = img98 \<and>
   50 < unat (width img98) \<and> 0 < unat (height img98) \<and>
   lookup (data mask2) (maskIdx img98 mask2 50 0 + 3) = Some 0 \<and>
   lookup (data mask2) (maskIdx img98 mask2 49 0 + 3) = Some 255 \<and>
   (\<exists>src canvas.
      getImageData (canvasOf img98) = Inr src \<and>
      applyMaskToImage (\<lambda>c a. c) (HTMLImageElement img98) mask2 False 0 = Inr canvas \<and>
      maskPixels img98 mask2 (data src) ! ((0 * unat (width img98) + 50) * 4 + 3) = 0 \<and>
      maskPixels img98 mask2 (data src) ! ((0 * unat (width img98) + 50) * 4 + 2) = 30 \<and>
      data canvas ! ((0 * unat (width img98) + 50) * 4 + 3) = 0 \<and>
      data canvas ! ((0 * unat (width img98) + 50) * 4 + 2) = 0 \<and>
      data canvas ! ((0 * unat (width img98) + 49) * 4 + 3) = 255 \<and>
      data canvas ! ((0 * unat (width img98) + 49) * 4 + 2) = 30) \<and>
   maskIdx img98 img98 49 0 = 196"
proof -
  have e: "raster (HTMLImageElement img98) = img98" by simp
  have a: "50 < unat (width img98)" "49 < unat (width img98)" "0 < unat (height img98)"
    by (simp_all add: img98_dims)
  have l50: "lookup (data mask2) (maskIdx img98 mask2 50 0 + 3) = Some 0"
    unfolding maskIdx_50 by (simp add: lookup_def mask2_def)
  have l49: "lookup (data mask2) (maskIdx img98 mask2 49 0 + 3) = Some 255"
    unfolding maskIdx_49 by (simp add: lookup_def mask2_def)
  have g: "getImageData (canvasOf img98) = Inr (bitmap (canvasOf img98))"
    by (simp add: getImageData_def canvasOf_def img98_def)
  from C4_binary_cutout [OF e a(1,3), of mask2 "\<lambda>c a. c" 0] l50 g
  obtain canvas where
    c: "applyMaskToImage (\<lambda>c a. c) (HTMLImageElement img98) mask2 False 0 = Inr canvas" and
    p1: "maskPixels img98 mask2 (data (bitmap (canvasOf img98)))
           ! ((0 * unat (width img98) + 50) * 4 + 3) = 0" and
    p2: "\<forall>ch<3. maskPixels img98 mask2 (data (bitmap (canvasOf img98)))
                   ! ((0 * unat (width img98) + 50) * 4 + ch)
                 = data (bitmap (canvasOf img98)) ! ((0 * unat (width img98) + 50) * 4 + ch)" and
    p3: "\<forall>ch<4. data canvas ! ((0 * unat (width img98) + 50) * 4 + ch) = 0"
    by auto
  from C4_binary_cutout [OF e a(2,3), of mask2 "\<lambda>c a. c" 0] l49 g c
  have p4: "data canvas ! ((0 * unat (width img98) + 49) * 4 + 3)
              = data (bitmap (canvasOf img98)) ! ((0 * unat (width img98) + 49) * 4 + 3)" and
    p5: "data (bitmap (canvasOf img98)) ! ((0 * unat (width img98) + 49) * 4 + 3) = 255 \<longrightarrow>
         (\<forall>ch<3. data canvas ! ((0 * unat (width img98) + 49) * 4 + ch)
                   = data (bitmap (canvasOf img98)) ! ((0 * unat (width img98) + 49) * 4 + ch))"
    by auto
  have s3: "data (bitmap (canvasOf img98)) ! ((0 * unat (width img98) + 49) * 4 + 3) = 255"
    using img98_src [of 49 3] by simp
  have s2: "data (bitmap (canvasOf img98)) ! ((0 * unat (width img98) + 49) * 4 + 2) = 30"
    using img98_src [of 49 2] by simp
  have t2: "data (bitmap (canvasOf img98)) ! ((0 * unat (width img98) + 50) * 4 + 2) = 30"
    using img98_src [of 50 2] by simp
  from p2 [rule_format, of 2] t2
  have q2: "maskPixels img98 mask2 (data (bitmap (canvasOf img98)))
              ! ((0 * unat (width img98) + 50) * 4 + 2) = 30"
    by simp
  from p3 [rule_format, of 3] have q3: "data canvas ! ((0 * unat (width img98) + 50) * 4 + 3) = 0"
    by simp
  from p3 [rule_format, of 2] have q4: "data canvas ! ((0 * unat (width img98) + 50) * 4 + 2) = 0"
    by simp
  from p4 s3 have q5: "data canvas ! ((0 * unat (width img98) + 49) * 4 + 3) = 255" by simp
  from p5 s3 have "\<forall>ch<3. data canvas ! ((0 * unat (width img98) + 49) * 4 + ch)
                   = data (bitmap (canvasOf img98)) ! ((0 * unat (width img98) + 49) * 4 + ch)"
    by simp
  from this [rule_format, of 2] s2
  have q6: "data canvas ! ((0 * unat (width img98) + 49) * 4 + 2) = 30" by simp
  from C4_binary_cutout [OF e a(2,3), of img98 "\<lambda>c a. c" 0]
  have "maskIdx img98 img98 49 0 = int ((0 * unat (width img98) + 49) * 4)" by blast
  then have p7: "maskIdx img98 img98 49 0 = 196" by (simp add: img98_dims)
  from g c p1 q2 q3 q4 q5 q6
  have "\<exists>src canvas.
      getImageData (canvasOf img98) = Inr src \<and>
      applyMaskToImage (\<lambda>c a. c) (HTMLImageElement img98) mask2 False 0 = Inr canvas \<and>
      maskPixels img98 mask2 (data src) ! ((0 * unat (width img98) + 50) * 4 + 3) = 0 \<and>
      maskPixels img98 mask2 (data src) ! ((0 * unat (width img98) + 50) * 4 + 2) = 30 \<and>
      data canvas ! ((0 * unat (width img98) + 50) * 4 + 3) = 0 \<and>
      data canvas ! ((0 * unat (width img98) + 50) * 4 + 2) = 0 \<and>
      data canvas ! ((0 * unat (width img98) + 49) * 4 + 3) = 255 \<and>
      data canvas ! ((0 * unat (width img98) + 49) * 4 + 2) = 30"
    by blast
  with e a l50 l49 p7 show ?thesis by blast
qed

text \<open>
  The claim fails on that image, whatever the user agent's \<open>requantize\<close>. At destination
  pixel (49, 0): in exact arithmetic \<open>floor (49 * 2 / 98) = 1\<close>, and mask pixel (1, 0) has
  alpha 0, so the destination alpha should become 0; but in doubles \<open>49 * (2 / 98) < 1\<close>,
  the code consults mask pixel (0, 0), and the destination alpha stays 255. At destination
  pixel (50, 0), which is cut out: the blue byte of the source is 30, and the blue byte
  that reads back from the returned canvas is 0.
\<close>

theorem C4_counterexample:
  "49 < unat (width img98) \<and> 0 < unat (height img98) \<and>
   \<lfloor>(49 * 2) / 98 :: rat\<rfloor> = 1 \<and>
   \<lfloor>(0 * 1) / 1 :: rat\<rfloor> = 0 \<and>
   lookup (data mask2) (int ((0 * unat (width mask2) + 1) * 4) + 3) = Some 0 \<and>
   lookup (data mask2) (maskIdx img98 mask2 50 0 + 3) = Some 0 \<and>
   data (bitmap (canvasOf img98)) ! ((0 * unat (width img98) + 49) * 4 + 3) = 255 \<and>
   data (bitmap (canvasOf img98)) ! ((0 * unat (width img98) + 50) * 4 + 2) = 30 \<and>
   (\<forall>requantize. \<exists>canvas.
      applyMaskToImage requantize (HTMLImageElement img98) mask2 False 0 = Inr canvas \<and>
      data canvas ! ((0 * unat (width img98) + 49) * 4 + 3) = 255 \<and>
      data canvas ! ((0 * unat (width img98) + 50) * 4 + 2) = 0)"
proof -
  have a: "49 < unat (width img98)" "50 < unat (width img98)" "0 < unat (height img98)"
    by (simp_all add: img98_dims)
  have nz: "width img98 \<noteq> 0" "height img98 \<noteq> 0" by (simp_all add: img98_def)
  have l49: "lookup (data mask2) (maskIdx img98 mask2 49 0 + 3) = Some 255"
    unfolding maskIdx_49 by (simp add: lookup_def mask2_def)
  have l50: "lookup (data mask2) (maskIdx img98 mask2 50 0 + 3) = Some 0"
    unfolding maskIdx_50 by (simp add: lookup_def mask2_def)
  have s: "data (bitmap (canvasOf img98)) ! ((0 * unat (width img98) + 49) * 4 + 3) = 255"
    using img98_src [of 49 3] by simp
  have s2: "data (bitmap (canvasOf img98)) ! ((0 * unat (width img98) + 50) * 4 + 2) = 30"
    using img98_src [of 50 2] by simp
  have m: "lookup (data mask2) (int ((0 * unat (width mask2) + 1) * 4) + 3) = Some 0"
    by (simp add: lookup_def mask2_def)
  have f: "\<lfloor>(49 * 2) / 98 :: rat\<rfloor> = 1" "\<lfloor>(0 * 1) / 1 :: rat\<rfloor> = 0" by simp_all
  define written where "written = maskPixels img98 mask2 (data (bitmap (canvasOf img98)))"
  have len: "length (data (bitmap (canvasOf img98))) = unat (width img98) * unat (height img98) * 4"
    by (simp add: canvasOf_def)
  note m49 = maskPixels_pixel(1) [OF a(1,3) len, of mask2, folded written_def]
    maskPixels_pixel(3) [OF a(1,3) len, of mask2, folded written_def]
    maskPixels_pixel(4) [OF a(1,3) len]
  note m50 = maskPixels_pixel(1) [OF a(2,3) len, of mask2, folded written_def]
    maskPixels_pixel(3) [OF a(2,3) len, of mask2, folded written_def]
    maskPixels_pixel(4) [OF a(2,3) len]
  have w49: "written ! ((0 * unat (width img98) + 49) * 4 + 3) = 255" using m49(1) l49 s by simp
  have w50: "written ! ((0 * unat (width img98) + 50) * 4 + 3) = 0" using m50(1) l50 by simp
  have i49: "(0 * unat (width img98) + 49) * 4 + 3 < length written" using m49(2,3) by simp
  have i50: "(0 * unat (width img98) + 50) * 4 + 3 < length written" using m50(2,3) by simp
  have o: "\<exists>canvas.
      applyMaskToImage requantize (HTMLImageElement img98) mask2 False 0 = Inr canvas \<and>
      data canvas ! ((0 * unat (width img98) + 49) * 4 + 3) = 255 \<and>
      data canvas ! ((0 * unat (width img98) + 50) * 4 + 2) = 0" for requantize
  proof -
    have "putImageData requantize written ! ((0 * unat (width img98) + 49) * 4 + 3) = 255"
      using putImageData_pixel [OF i49, of 3 requantize] w49 by simp
    moreover have "putImageData requantize written ! ((0 * unat (width img98) + 50) * 4 + 2) = 0"
      using putImageData_pixel [OF i50, of 2 requantize] w50 by simp
    ultimately show ?thesis
      using applyMask_canvas(2) [of "HTMLImageElement img98" img98, OF _ nz, of requantize mask2 0]
      by (simp add: written_def)
  qed
  from a f m l50 s s2 o show ?thesis by blast
qed

end
